theory Spec2Isabelle
  imports
    Main
    "HOL-Library.Word"
    "HOL-Library.Signed_Division"
    "HOL-Library.Sublist"
    "HOL-Library.Finite_Map"
    "HOL-Library.Char_ord"
    "HOL-Library.List_Lexorder"
begin

section \<open>The credential rotation handler of auth-modifier\<close>

text \<open>
  The handler \<^verbatim>\<open>AuthModifier\<close> keeps, for every request path, a rotation position in the
  Go map \<^verbatim>\<open>Indexes\<close>, picks one credential of a comma-separated header value with it and
  moves the position on. The table is written to a JSON file when it changed and read
  back when the handler is provisioned.

  Go strings are byte sequences: they are \<^typ>\<open>string\<close> here, one \<^typ>\<open>char\<close> per byte. Go's
  \<^verbatim>\<open>int\<close> is the 64-bit two's complement integer of the usual platforms: a \<^typ>\<open>64 word\<close>,
  read with \<^const>\<open>sint\<close>. A length (\<^verbatim>\<open>len\<close>) always fits an \<^verbatim>\<open>int\<close>, so lengths are kept as
  the exact \<^typ>\<open>int\<close> of the list's length.
\<close>

subsection \<open>The pieces of the Go library the handler calls\<close>

type_synonym int64 = "64 word"

datatype panic = IndexOutOfRange | DivideByZero | NilMapAssignment

text \<open>
  Go's \<^verbatim>\<open>%\<close> truncates towards zero (the remainder has the sign of the dividend) and
  panics on a zero divisor. The divisor is always a length here.
\<close>

definition go_rem :: "int64 \<Rightarrow> int \<Rightarrow> panic + int64" where
  "go_rem x n = (if n = 0 then Inl DivideByZero else Inr (word_of_int (sint x smod n)))"

text \<open>Indexing a slice with an \<^verbatim>\<open>int\<close> panics outside \<^verbatim>\<open>0 <= i < len\<close>.\<close>

definition go_index :: "'a list \<Rightarrow> int64 \<Rightarrow> panic + 'a" where
  "go_index xs i =
     (if 0 \<le> sint i \<and> sint i < int (length xs) then Inr (xs ! nat (sint i))
      else Inl IndexOutOfRange)"

text \<open>
  \<^verbatim>\<open>strings.Split(s, ",")\<close>: the substrings between the commas, one more than there are
  commas; the empty string gives one empty substring.
\<close>

fun Split :: "string \<Rightarrow> string list" where
  "Split [] = [[]]"
| "Split (c # cs) =
     (if c = CHR '','' then [] # Split cs
      else (case Split cs of [] \<Rightarrow> [[c]] | t # ts \<Rightarrow> (c # t) # ts))"

text \<open>
  \<^verbatim>\<open>strings.ToLower\<close> on the letters \<^verbatim>\<open>A\<close> to \<^verbatim>\<open>Z\<close>. The handler lowers seven bytes and
  compares them with the ASCII string \<^verbatim>\<open>"bearer "\<close>. Outside ASCII the library lowers rune
  by rune, an invalid byte becomes U+FFFD, and no rune outside ASCII lowers to one of
  the letters of that string, so the comparison holds exactly when the seven bytes are
  ASCII and their bytewise lowering is the prefix.
\<close>

definition lower_byte :: "char \<Rightarrow> char" where
  "lower_byte c =
     (if CHR ''A'' \<le> c \<and> c \<le> CHR ''Z'' then char_of (of_char c + (32 :: nat)) else c)"

definition ToLower :: "string \<Rightarrow> string" where
  "ToLower s = map lower_byte s"

definition HasPrefix :: "string \<Rightarrow> string \<Rightarrow> bool" where
  "HasPrefix s p = (length p \<le> length s \<and> take (length p) s = p)"

text \<open>
  \<^verbatim>\<open>strings.TrimSpace\<close> removes the leading and the trailing runes for which
  \<^verbatim>\<open>unicode.IsSpace\<close> holds. These are the UTF-8 encodings of those runes: the six ASCII
  ones, U+0085, U+00A0, U+1680, U+2000 to U+200A, U+2028, U+2029, U+202F, U+205F and
  U+3000. UTF-8 is decoded strictly, so a rune is white space exactly when the bytes at
  hand are one of these encodings.
\<close>

definition space_runes :: "string list" where
  "space_runes =
     [[CHR 0x09], [CHR 0x0A], [CHR 0x0B], [CHR 0x0C], [CHR 0x0D], [CHR 0x20],
      [CHR 0xC2, CHR 0x85], [CHR 0xC2, CHR 0xA0],
      [CHR 0xE1, CHR 0x9A, CHR 0x80],
      [CHR 0xE2, CHR 0x80, CHR 0x80], [CHR 0xE2, CHR 0x80, CHR 0x81],
      [CHR 0xE2, CHR 0x80, CHR 0x82], [CHR 0xE2, CHR 0x80, CHR 0x83],
      [CHR 0xE2, CHR 0x80, CHR 0x84], [CHR 0xE2, CHR 0x80, CHR 0x85],
      [CHR 0xE2, CHR 0x80, CHR 0x86], [CHR 0xE2, CHR 0x80, CHR 0x87],
      [CHR 0xE2, CHR 0x80, CHR 0x88], [CHR 0xE2, CHR 0x80, CHR 0x89],
      [CHR 0xE2, CHR 0x80, CHR 0x8A],
      [CHR 0xE2, CHR 0x80, CHR 0xA8], [CHR 0xE2, CHR 0x80, CHR 0xA9],
      [CHR 0xE2, CHR 0x80, CHR 0xAF],
      [CHR 0xE2, CHR 0x81, CHR 0x9F],
      [CHR 0xE3, CHR 0x80, CHR 0x80]]"

text \<open>The number of leading (trailing) bytes that form one white-space rune, 0 if none.\<close>

definition leading_space :: "string \<Rightarrow> nat" where
  "leading_space s =
     (case find (\<lambda>e. prefix e s) space_runes of None \<Rightarrow> 0 | Some e \<Rightarrow> length e)"

definition trailing_space :: "string \<Rightarrow> nat" where
  "trailing_space s =
     (case find (\<lambda>e. suffix e s) space_runes of None \<Rightarrow> 0 | Some e \<Rightarrow> length e)"

function TrimLeftSpace :: "string \<Rightarrow> string" where
  "TrimLeftSpace s =
     (if leading_space s = 0 then s else TrimLeftSpace (drop (leading_space s) s))"
  by pat_completeness auto
termination
proof (relation "measure length")
  fix s :: string
  assume "leading_space s \<noteq> 0"
  moreover have "leading_space s \<le> length s"
    by (auto simp: leading_space_def find_Some_iff prefix_length_le split: option.splits)
  ultimately show "(drop (leading_space s) s, s) \<in> measure length"
    by simp
qed simp

function TrimRightSpace :: "string \<Rightarrow> string" where
  "TrimRightSpace s =
     (if trailing_space s = 0 then s
      else TrimRightSpace (take (length s - trailing_space s) s))"
  by pat_completeness auto
termination
proof (relation "measure length")
  fix s :: string
  assume "trailing_space s \<noteq> 0"
  moreover have "trailing_space s \<le> length s"
    by (auto simp: trailing_space_def find_Some_iff suffix_length_le split: option.splits)
  ultimately show "(take (length s - trailing_space s) s, s) \<in> measure length"
    by simp
qed simp

declare TrimLeftSpace.simps [simp del] TrimRightSpace.simps [simp del]

definition TrimSpace :: "string \<Rightarrow> string" where
  "TrimSpace s = TrimRightSpace (TrimLeftSpace s)"

text \<open>
  \<^verbatim>\<open>http.Header\<close> maps a canonical header name to its values. \<^verbatim>\<open>Get\<close> returns the first
  value, or the empty string when there is none; \<^verbatim>\<open>Set\<close> replaces all values by one. The
  two names the handler uses are canonical as written.
\<close>

type_synonym Header = "string \<rightharpoonup> string list"

definition Header_Get :: "Header \<Rightarrow> string \<Rightarrow> string" where
  "Header_Get h k = (case h k of None \<Rightarrow> [] | Some [] \<Rightarrow> [] | Some (v # _) \<Rightarrow> v)"

definition Header_Set :: "Header \<Rightarrow> string \<Rightarrow> string \<Rightarrow> Header" where
  "Header_Set h k v = h(k \<mapsto> [v])"

subsection \<open>The handler's state\<close>

text \<open>
  A request, as far as the handler reads and writes it: \<^verbatim>\<open>r.URL.Path\<close> (the older variant
  of the file keys the table by \<^verbatim>\<open>r.URL.String()\<close> instead; the handler is otherwise the
  same) and the headers.
\<close>

record Request =
  Path :: string
  Header :: Header

datatype log_entry = LogDebug string string | LogError string

text \<open>
  The fields of \<^verbatim>\<open>AuthModifier\<close> that carry data. \<^verbatim>\<open>Indexes\<close> is a Go map, which may be
  \<^verbatim>\<open>nil\<close> (\<^const>\<open>None\<close>): reading a nil map gives the zero value, assigning to it panics.
  \<^verbatim>\<open>logger\<close> is the list of the entries logged so far. The handler's operations run
  under its mutex; each is one atomic step here.
\<close>

record AuthModifier =
  Indexes :: "(string, int64) fmap option"
  Changed :: bool
  IndexPath :: string
  logger :: "log_entry list"

definition map_read :: "(string, int64) fmap option \<Rightarrow> string \<Rightarrow> int64" where
  "map_read t k =
     (case t of None \<Rightarrow> 0
      | Some m \<Rightarrow> (case fmlookup m k of None \<Rightarrow> 0 | Some v \<Rightarrow> v))"

definition updateIndex :: "string \<Rightarrow> int \<Rightarrow> AuthModifier \<Rightarrow> panic + AuthModifier" where
  "updateIndex url len a =
     (case go_rem (map_read (Indexes a) url + 1) len of
        Inl p \<Rightarrow> Inl p
      | Inr v \<Rightarrow>
          (case Indexes a of
             None \<Rightarrow> Inl NilMapAssignment
           | Some m \<Rightarrow> Inr (a\<lparr>Indexes := Some (fmupd url v m), Changed := True\<rparr>)))"

text \<open>
  The body the handler runs for each of its three kinds of credential list, with the
  header name, the prefix put before the selected credential and the message it logs:
  \<^verbatim>\<open>if len(tokens) > 0 { selected := tokens[index%len(tokens)]; r.Header.Set(..);
  a.logger.Debug(..); a.updateIndex(r.URL.Path, len(tokens)) }\<close>.
\<close>

definition rotate ::
  "string \<Rightarrow> string \<Rightarrow> string list \<Rightarrow> int64 \<Rightarrow> AuthModifier \<times> Request
     \<Rightarrow> panic + AuthModifier \<times> Request" where
  "rotate name pfx tokens index ar =
     (let (a, r) = ar in
      if 0 < length tokens then
        (case go_rem index (int (length tokens)) of
           Inl p \<Rightarrow> Inl p
         | Inr i \<Rightarrow>
             (case go_index tokens i of
                Inl p \<Rightarrow> Inl p
              | Inr selected \<Rightarrow>
                  (let r' = r\<lparr>Header := Header_Set (Header r) name (pfx @ selected)\<rparr>;
                       a' = a\<lparr>logger := logger a @ [LogDebug (''Set '' @ name) (pfx @ selected)]\<rparr>
                   in (case updateIndex (Path r) (int (length tokens)) a' of
                         Inl p \<Rightarrow> Inl p
                       | Inr a'' \<Rightarrow> Inr (a'', r')))))
      else Inr (a, r))"

definition isBearer :: "string \<Rightarrow> bool" where
  "isBearer authHeader =
     (7 \<le> length authHeader \<and> HasPrefix (ToLower (take 7 authHeader)) ''bearer '')"

text \<open>
  \<^verbatim>\<open>ServeHTTP\<close>: the position is read once, then the \<^verbatim>\<open>Authorization\<close> value is rotated
  (with the prefix \<^verbatim>\<open>"Bearer "\<close>, or as it is when it is not empty), then the
  \<^verbatim>\<open>X-Goog-Api-Key\<close> value. The result is the handler's state and the request handed to
  the next handler, or the panic.
\<close>

definition ServeHTTP :: "AuthModifier \<Rightarrow> Request \<Rightarrow> panic + AuthModifier \<times> Request" where
  "ServeHTTP a r =
     (let index = map_read (Indexes a) (Path r);
          authHeader = Header_Get (Header r) ''Authorization'';
          apiKeyHeader = Header_Get (Header r) ''X-Goog-Api-Key'';
          step1 =
            (if isBearer authHeader then
               rotate ''Authorization'' ''Bearer '' (Split (TrimSpace (drop 7 authHeader)))
                 index (a, r)
             else if 0 < length authHeader then
               rotate ''Authorization'' [] (Split authHeader) index (a, r)
             else Inr (a, r))
      in (case step1 of
            Inl p \<Rightarrow> Inl p
          | Inr ar \<Rightarrow>
              (if 0 < length apiKeyHeader then
                 rotate ''X-Goog-Api-Key'' [] (Split apiKeyHeader) index ar
               else Inr ar)))"

subsection \<open>The JSON the table is stored as\<close>

text \<open>
  The table is written with \<^verbatim>\<open>json.Marshal\<close> and read with \<^verbatim>\<open>json.Unmarshal\<close>, on a
  \<^verbatim>\<open>map[string]int\<close>. Both are modelled on the bytes of the file.

  \<^verbatim>\<open>utf8.DecodeRune\<close> accepts the well-formed sequences of one to four bytes (no overlong
  forms, no surrogates, nothing above U+10FFFF): \<open>utf8_width\<close> is the length of the
  sequence at the head of a string, 0 when the first byte starts none.
  \<^verbatim>\<open>utf8.EncodeRune\<close> writes a rune, U+FFFD for a surrogate or a value out of range.
\<close>

definition byte :: "char \<Rightarrow> nat" where
  "byte c = of_char c"

definition cont :: "char \<Rightarrow> bool" where
  "cont c = (0x80 \<le> byte c \<and> byte c \<le> 0xBF)"

fun utf8_width :: "string \<Rightarrow> nat" where
  "utf8_width [] = 0"
| "utf8_width (c # cs) =
     (let b = byte c in
      if b < 0x80 then 1
      else if b < 0xC2 then 0
      else if b < 0xE0 then
        (case cs of c1 # _ \<Rightarrow> if cont c1 then 2 else 0 | _ \<Rightarrow> 0)
      else if b < 0xF0 then
        (case cs of
           c1 # c2 # _ \<Rightarrow>
             if (if b = 0xE0 then 0xA0 else 0x80) \<le> byte c1
                \<and> byte c1 \<le> (if b = 0xED then 0x9F else 0xBF) \<and> cont c2
             then 3 else 0
         | _ \<Rightarrow> 0)
      else if b < 0xF5 then
        (case cs of
           c1 # c2 # c3 # _ \<Rightarrow>
             if (if b = 0xF0 then 0x90 else 0x80) \<le> byte c1
                \<and> byte c1 \<le> (if b = 0xF4 then 0x8F else 0xBF) \<and> cont c2 \<and> cont c3
             then 4 else 0
         | _ \<Rightarrow> 0)
      else 0)"

definition EncodeRune :: "nat \<Rightarrow> string" where
  "EncodeRune r =
     (if r < 0x80 then [char_of r]
      else if r < 0x800 then [char_of (0xC0 + r div 64), char_of (0x80 + r mod 64)]
      else if 0x10FFFF < r \<or> (0xD800 \<le> r \<and> r < 0xE000) then [CHR 0xEF, CHR 0xBF, CHR 0xBD]
      else if r < 0x10000 then
        [char_of (0xE0 + r div 4096), char_of (0x80 + r div 64 mod 64), char_of (0x80 + r mod 64)]
      else
        [char_of (0xF0 + r div 262144), char_of (0x80 + r div 4096 mod 64),
         char_of (0x80 + r div 64 mod 64), char_of (0x80 + r mod 64)])"

text \<open>
  \<^verbatim>\<open>appendString\<close>, the encoder of a string (with HTML escaping, as \<^verbatim>\<open>Marshal\<close> sets it):
  the quote and the backslash get a backslash, the control characters, \<^verbatim>\<open><\<close>, \<^verbatim>\<open>>\<close> and
  \<^verbatim>\<open>&\<close> are written as escapes, a byte that starts no well-formed sequence becomes
  the escape of U+FFFD, U+2028 and U+2029 are escaped, every other sequence is copied.
\<close>

definition hex_digit :: "nat \<Rightarrow> char" where
  "hex_digit n = ''0123456789abcdef'' ! n"

definition escape_ascii :: "char \<Rightarrow> string" where
  "escape_ascii c =
     (if c = CHR 0x22 \<or> c = CHR 0x5C then [CHR 0x5C, c]
      else if c = CHR 0x08 then [CHR 0x5C, CHR ''b'']
      else if c = CHR 0x0C then [CHR 0x5C, CHR ''f'']
      else if c = CHR 0x0A then [CHR 0x5C, CHR ''n'']
      else if c = CHR 0x0D then [CHR 0x5C, CHR ''r'']
      else if c = CHR 0x09 then [CHR 0x5C, CHR ''t'']
      else if byte c < 0x20 \<or> c = CHR ''<'' \<or> c = CHR ''>'' \<or> c = CHR ''&'' then
        [CHR 0x5C, CHR ''u'', CHR ''0'', CHR ''0'', hex_digit (byte c div 16), hex_digit (byte c mod 16)]
      else [c])"

fun escape :: "string \<Rightarrow> string" where
  "escape [] = []"
| "escape (c # cs) =
     (if byte c < 0x80 then escape_ascii c @ escape cs
      else if utf8_width (c # cs) = 0 then [CHR 0x5C, CHR ''u'', CHR ''f'', CHR ''f'', CHR ''f'', CHR ''d''] @ escape cs
      else if take 3 (c # cs) = [CHR 0xE2, CHR 0x80, CHR 0xA8] then
        [CHR 0x5C, CHR ''u'', CHR ''2'', CHR ''0'', CHR ''2'', CHR ''8''] @ escape (drop 2 cs)
      else if take 3 (c # cs) = [CHR 0xE2, CHR 0x80, CHR 0xA9] then
        [CHR 0x5C, CHR ''u'', CHR ''2'', CHR ''0'', CHR ''2'', CHR ''9''] @ escape (drop 2 cs)
      else take (utf8_width (c # cs)) (c # cs) @ escape (drop (utf8_width (c # cs) - 1) cs))"

definition appendString :: "string \<Rightarrow> string" where
  "appendString src = [CHR 0x22] @ escape src @ [CHR 0x22]"

text \<open>\<^verbatim>\<open>strconv.AppendInt\<close> in base 10.\<close>

fun digits :: "nat \<Rightarrow> string" where
  "digits n = (if n < 10 then [char_of (48 + n)] else digits (n div 10) @ [char_of (48 + n mod 10)])"

declare digits.simps [simp del]

definition FormatInt :: "int \<Rightarrow> string" where
  "FormatInt i = (if i < 0 then CHR ''-'' # digits (nat (- i)) else digits (nat i))"

text \<open>
  The encoder of the map: \<^verbatim>\<open>null\<close> for a nil map, else the members \<^verbatim>\<open>"key":value\<close> in
  the order of the keys (bytewise), separated by commas, between braces. It does not
  fail on this type; the handler checks its error all the same.
\<close>

fun join_members :: "(string \<times> int64) list \<Rightarrow> string" where
  "join_members [] = []"
| "join_members [(k, v)] = appendString k @ '':'' @ FormatInt (sint v)"
| "join_members ((k, v) # kvs) = appendString k @ '':'' @ FormatInt (sint v) @ '','' @ join_members kvs"

datatype json_error = JsonError

definition Marshal :: "(string, int64) fmap option \<Rightarrow> json_error + string" where
  "Marshal t =
     Inr (case t of None \<Rightarrow> ''null''
          | Some m \<Rightarrow> ''{'' @ join_members (sorted_list_of_fmap m) @ ''}'')"


text \<open>
  The decoder of a string (the scanner's check and \<^verbatim>\<open>unquoteBytes\<close> in one pass), on the
  bytes after the opening quote: it returns the string and the bytes after the closing
  quote. A control character, an unknown escape or a missing quote is an error. A
  \<^verbatim>\<open>\uXXXX\<close> escape gives its rune; a high surrogate followed by the escape of a low one
  gives the rune of the pair, any other surrogate U+FFFD. Bytes outside ASCII are
  copied when they form a well-formed sequence, else each becomes U+FFFD.
\<close>

definition hex_val :: "char \<Rightarrow> nat option" where
  "hex_val c =
     (if CHR ''0'' \<le> c \<and> c \<le> CHR ''9'' then Some (byte c - 48)
      else if CHR ''a'' \<le> c \<and> c \<le> CHR ''f'' then Some (byte c - 87)
      else if CHR ''A'' \<le> c \<and> c \<le> CHR ''F'' then Some (byte c - 55)
      else None)"

definition getu4 :: "string \<Rightarrow> nat option" where
  "getu4 s =
     (case s of
        a # b # c # d # _ \<Rightarrow>
          (case (hex_val a, hex_val b, hex_val c, hex_val d) of
             (Some x, Some y, Some z, Some w) \<Rightarrow> Some (((x * 16 + y) * 16 + z) * 16 + w)
           | _ \<Rightarrow> None)
      | _ \<Rightarrow> None)"

definition low_surrogate :: "string \<Rightarrow> nat option" where
  "low_surrogate s =
     (case s of
        b # u # t \<Rightarrow>
          (if b = CHR 0x5C \<and> u = CHR ''u'' then
             (case getu4 t of
                Some rr1 \<Rightarrow> if 0xDC00 \<le> rr1 \<and> rr1 < 0xE000 then Some rr1 else None
              | None \<Rightarrow> None)
           else None)
      | _ \<Rightarrow> None)"

definition emit :: "string \<Rightarrow> (string \<times> string) option \<Rightarrow> (string \<times> string) option" where
  "emit bs r = (case r of None \<Rightarrow> None | Some (k, rest) \<Rightarrow> Some (bs @ k, rest))"

fun unquote :: "string \<Rightarrow> (string \<times> string) option" where
  "unquote [] = None"
| "unquote (c # cs) =
     (if c = CHR 0x22 then Some ([], cs)
      else if c = CHR 0x5C then
        (case cs of
           [] \<Rightarrow> None
         | e # es \<Rightarrow>
             if e = CHR 0x22 \<or> e = CHR 0x5C \<or> e = CHR ''/'' then emit [e] (unquote es)
             else if e = CHR ''b'' then emit [CHR 0x08] (unquote es)
             else if e = CHR ''f'' then emit [CHR 0x0C] (unquote es)
             else if e = CHR ''n'' then emit [CHR 0x0A] (unquote es)
             else if e = CHR ''r'' then emit [CHR 0x0D] (unquote es)
             else if e = CHR ''t'' then emit [CHR 0x09] (unquote es)
             else if e = CHR ''u'' then
               (case getu4 es of
                  None \<Rightarrow> None
                | Some rr \<Rightarrow>
                    if 0xD800 \<le> rr \<and> rr < 0xE000 then
                      (case low_surrogate (drop 4 es) of
                         Some rr1 \<Rightarrow>
                           if rr < 0xDC00 then
                             emit (EncodeRune (0x10000 + (rr - 0xD800) * 1024 + (rr1 - 0xDC00)))
                               (unquote (drop 10 es))
                           else emit [CHR 0xEF, CHR 0xBF, CHR 0xBD] (unquote (drop 4 es))
                       | None \<Rightarrow> emit [CHR 0xEF, CHR 0xBF, CHR 0xBD] (unquote (drop 4 es)))
                    else emit (EncodeRune rr) (unquote (drop 4 es)))
             else None)
      else if byte c < 0x20 then None
      else if byte c < 0x80 then emit [c] (unquote cs)
      else if utf8_width (c # cs) = 0 then emit [CHR 0xEF, CHR 0xBF, CHR 0xBD] (unquote cs)
      else emit (take (utf8_width (c # cs)) (c # cs)) (unquote (drop (utf8_width (c # cs) - 1) cs)))"

text \<open>
  White space and numbers. A member's value is stored in an \<^verbatim>\<open>int\<close>: only a number
  literal without fraction and exponent that fits 64 bits is stored without an error
  (\<^verbatim>\<open>null\<close> leaves the zero value); anything else, well-formed JSON or not, makes
  \<^verbatim>\<open>Unmarshal\<close> return an error, and the handler does not tell the errors apart.
\<close>

definition is_space :: "char \<Rightarrow> bool" where
  "is_space c = (c = CHR 0x20 \<or> c = CHR 0x09 \<or> c = CHR 0x0D \<or> c = CHR 0x0A)"

definition skip_space :: "string \<Rightarrow> string" where
  "skip_space s = dropWhile is_space s"

definition is_digit :: "char \<Rightarrow> bool" where
  "is_digit c = (CHR ''0'' \<le> c \<and> c \<le> CHR ''9'')"

definition number_value :: "string \<Rightarrow> int" where
  "number_value ds = foldl (\<lambda>n c. 10 * n + int (byte c - 48)) 0 ds"

definition scan_int :: "string \<Rightarrow> (int64 \<times> string) option" where
  "scan_int s =
     (let neg = (s \<noteq> [] \<and> hd s = CHR ''-'');
          t = (if neg then tl s else s);
          ds = takeWhile is_digit t;
          v = (if neg then - number_value ds else number_value ds)
      in if ds = [] \<or> (hd ds = CHR ''0'' \<and> length ds \<noteq> 1) then None
         else if - (2 ^ 63) \<le> v \<and> v < 2 ^ 63 then Some (word_of_int v, dropWhile is_digit t)
         else None)"

definition scan_value :: "string \<Rightarrow> (int64 \<times> string) option" where
  "scan_value s = (if prefix ''null'' s then Some (0, drop 4 s) else scan_int s)"

definition scan_member :: "string \<Rightarrow> (string \<times> int64 \<times> string) option" where
  "scan_member s =
     (case skip_space s of
        q # s1 \<Rightarrow>
          (if q = CHR 0x22 then
             (case unquote s1 of
                None \<Rightarrow> None
              | Some (k, s2) \<Rightarrow>
                  (case skip_space s2 of
                     c # s3 \<Rightarrow>
                       (if c = CHR '':'' then
                          (case scan_value (skip_space s3) of
                             None \<Rightarrow> None
                           | Some (v, s4) \<Rightarrow> Some (k, v, skip_space s4))
                        else None)
                   | [] \<Rightarrow> None))
           else None)
      | [] \<Rightarrow> None)"


lemma emit_Some: "emit bs x = Some (k, r) \<longleftrightarrow> (\<exists>k'. x = Some (k', r) \<and> k = bs @ k')"
  by (auto simp: emit_def split: option.splits)

lemma unquote_length: "unquote s = Some (k, r) \<Longrightarrow> length r < length s"
proof (induction "length s" arbitrary: s k r rule: less_induct)
  case less
  have IH: "length r' < length s'" if "length s' < length s" and "unquote s' = Some (k', r')"
    for s' k' r'
    using less.hyps [OF that] .
  from less.prems obtain c cs where s: "s = c # cs"
    by (cases s) auto
  show ?case
  proof (cases "c = CHR 0x5C")
    case True
    with s less.prems obtain e es where cs: "cs = e # es"
      by (cases cs) auto
    have d: "length (drop n es) < length s" for n
      by (simp add: s cs)
    have e: "length es < length s"
      by (simp add: s cs)
    from True s cs less.prems show ?thesis
      by (auto simp: emit_Some split: if_splits option.splits dest!: IH [OF d] IH [OF e])
  next
    case False
    have d: "length (drop n cs) < length s" for n
      by (simp add: s)
    have e: "length cs < length s"
      by (simp add: s)
    from False s less.prems show ?thesis
      by (auto simp: emit_Some split: if_splits dest!: IH [OF d] IH [OF e])
  qed
qed


lemma scan_member_length: "scan_member s = Some (k, v, r) \<Longrightarrow> length r < length s"
proof -
  assume a: "scan_member s = Some (k, v, r)"
  have sk: "length (skip_space x) \<le> length x" for x
    by (simp add: skip_space_def length_dropWhile_le)
  have sv: "length r' \<le> length x" if "scan_value x = Some (v', r')" for x v' r'
  proof -
    have "length (dropWhile is_digit (tl x)) \<le> length x"
      using length_dropWhile_le [of is_digit "tl x"] by simp
    with that show ?thesis
      by (auto simp: scan_value_def scan_int_def Let_def length_dropWhile_le
          split: if_splits)
  qed
  from a obtain s1 s2 s3 s4 where 1: "skip_space s = CHR 0x22 # s1"
    and 2: "unquote s1 = Some (k, s2)" and 3: "skip_space s2 = CHR '':'' # s3"
    and 4: "scan_value (skip_space s3) = Some (v, s4)" and r: "r = skip_space s4"
    by (auto simp: scan_member_def split: list.splits if_splits option.splits)
  have "length r \<le> length s4" using r sk by simp
  also have "\<dots> \<le> length (skip_space s3)" using sv [OF 4] .
  also have "\<dots> \<le> length s3" by (rule sk)
  also have "\<dots> < length (skip_space s2)" by (simp add: 3)
  also have "\<dots> \<le> length s2" by (rule sk)
  also have "\<dots> < length s1" using unquote_length [OF 2] .
  also have "\<dots> < length (skip_space s)" by (simp add: 1)
  also have "\<dots> \<le> length s" by (rule sk)
  finally show ?thesis .
qed

text \<open>The members of an object, stored into the map one after the other, up to the end of the input.\<close>

function scan_members :: "(string, int64) fmap \<Rightarrow> string \<Rightarrow> (string, int64) fmap option" where
  "scan_members m s =
     (case scan_member s of
        None \<Rightarrow> None
      | Some (k, v, r) \<Rightarrow>
          (case r of
             c # r' \<Rightarrow>
               if c = CHR '','' then scan_members (fmupd k v m) r'
               else if c = CHR ''}'' \<and> skip_space r' = [] then Some (fmupd k v m)
               else None
           | [] \<Rightarrow> None))"
  by pat_completeness auto
termination
proof (relation "measure (\<lambda>(m, s). length s)")
  fix m :: "(string, int64) fmap" and s x2 k y v r c r'
  assume "scan_member s = Some x2" "(k, y) = x2" "(v, r) = y" "r = c # r'"
  then have "scan_member s = Some (k, v, c # r')" by simp
  from scan_member_length [OF this]
  show "((fmupd k v m, r'), m, s) \<in> measure (\<lambda>(m, s). length s)"
    by simp
qed simp

declare scan_members.simps [simp del]

text \<open>
  \<^verbatim>\<open>json.Unmarshal(data, &a.Indexes)\<close>, given the map the field holds: \<^verbatim>\<open>null\<close> sets the
  field to nil; an object is stored into the map that is there (a new one when it is
  nil), a later member with the same key replacing an earlier one; any other input is
  an error.
\<close>

definition Unmarshal ::
  "string \<Rightarrow> (string, int64) fmap option \<Rightarrow> json_error + (string, int64) fmap option" where
  "Unmarshal data old =
     (let s = skip_space data;
          m = (case old of None \<Rightarrow> fmempty | Some m \<Rightarrow> m)
      in if prefix ''null'' s then
           (if skip_space (drop 4 s) = [] then Inr None else Inl JsonError)
         else
           (case s of
              c # s1 \<Rightarrow>
                if c = CHR ''{'' then
                  (case skip_space s1 of
                     d # s2 \<Rightarrow>
                       if d = CHR ''}'' then
                         (if skip_space s2 = [] then Inr (Some m) else Inl JsonError)
                       else
                         (case scan_members m s1 of
                            None \<Rightarrow> Inl JsonError
                          | Some m' \<Rightarrow> Inr (Some m'))
                   | [] \<Rightarrow> Inl JsonError)
                else Inl JsonError
            | [] \<Rightarrow> Inl JsonError))"

subsection \<open>The index file\<close>

text \<open>
  The file system, as far as the handler sees it: at a name there is nothing, something
  \<^verbatim>\<open>os.ReadFile\<close> fails on for another reason than absence, or a file with its bytes.
  Whether a write succeeds is up to the environment; a failed \<^verbatim>\<open>os.WriteFile\<close> may leave
  anything at the name.
\<close>

datatype os_error = ErrNotExist | ErrOther

datatype file_state = Absent | Unreadable | Content string

type_synonym filesystem = "string \<Rightarrow> file_state"

definition ReadFile :: "filesystem \<Rightarrow> string \<Rightarrow> os_error + string" where
  "ReadFile fs name =
     (case fs name of Absent \<Rightarrow> Inl ErrNotExist | Unreadable \<Rightarrow> Inl ErrOther | Content d \<Rightarrow> Inr d)"

datatype write_outcome = WriteOk | WriteFails file_state

definition WriteFile ::
  "write_outcome \<Rightarrow> filesystem \<Rightarrow> string \<Rightarrow> string \<Rightarrow> os_error option \<times> filesystem" where
  "WriteFile w fs name data =
     (case w of
        WriteOk \<Rightarrow> (None, fs(name := Content data))
      | WriteFails left \<Rightarrow> (Some ErrOther, fs(name := left)))"

text \<open>
  \<^verbatim>\<open>saveIndexes\<close>, \<^verbatim>\<open>loadIndexes\<close> and the part of \<^verbatim>\<open>Provision\<close> before the timer is
  started (the older variant of the file has the fixed name \<^verbatim>\<open>indexes.json\<close> for
  \<^verbatim>\<open>IndexPath\<close> and makes no directory). \<^verbatim>\<open>Provision\<close> is given whether \<^verbatim>\<open>os.MkdirAll\<close>
  succeeded, and returns the error it returns to Caddy: none.
\<close>

definition saveIndexes ::
  "write_outcome \<Rightarrow> AuthModifier \<times> filesystem \<Rightarrow> AuthModifier \<times> filesystem" where
  "saveIndexes w afs =
     (let (a, fs) = afs in
      if \<not> Changed a then (a, fs)
      else
        (case Marshal (Indexes a) of
           Inl err \<Rightarrow> (a\<lparr>logger := logger a @ [LogError ''Error marshalling indexes'']\<rparr>, fs)
         | Inr data \<Rightarrow>
             (let a1 = a\<lparr>Changed := False\<rparr> in
              case WriteFile w fs (IndexPath a1) data of
                (Some err, fs') \<Rightarrow>
                  (a1\<lparr>logger := logger a1 @ [LogError ''Error writing indexes to file''],
                      Changed := True\<rparr>, fs')
              | (None, fs') \<Rightarrow> (a1, fs'))))"

definition loadIndexes :: "filesystem \<Rightarrow> AuthModifier \<Rightarrow> AuthModifier" where
  "loadIndexes fs a =
     (case ReadFile fs (IndexPath a) of
        Inl err \<Rightarrow>
          (let a1 = (if err \<noteq> ErrNotExist
                     then a\<lparr>logger := logger a @ [LogError ''Error reading indexes file'']\<rparr>
                     else a)
           in a1\<lparr>Indexes := Some fmempty\<rparr>)
      | Inr data \<Rightarrow>
          (case Unmarshal data (Indexes a) of
             Inl err \<Rightarrow>
               a\<lparr>logger := logger a @ [LogError ''Error parsing indexes file''],
                  Indexes := Some fmempty\<rparr>
           | Inr t \<Rightarrow> a\<lparr>Indexes := t\<rparr>))"

definition Provision :: "bool \<Rightarrow> filesystem \<Rightarrow> AuthModifier \<Rightarrow> os_error option \<times> AuthModifier" where
  "Provision mkdir_ok fs a =
     (let a1 = (if length (IndexPath a) = 0 then a\<lparr>IndexPath := ''indexes.json''\<rparr> else a);
          a2 = (if mkdir_ok then a1 else a1\<lparr>logger := logger a1 @ [LogError ''Error mkdir'']\<rparr>)
      in (None, loadIndexes fs a2))"

subsection \<open>Notions used to state the properties\<close>

text \<open>The position a request selects with: the position read, modulo the number of candidates.\<close>

definition selection :: "int64 \<Rightarrow> 'a list \<Rightarrow> nat" where
  "selection index tokens = nat (sint index mod int (length tokens))"

text \<open>A handler as \<^verbatim>\<open>Provision\<close> leaves it, with the table \<open>m\<close>.\<close>

definition provisioned :: "(string, int64) fmap \<Rightarrow> AuthModifier" where
  "provisioned m = \<lparr>Indexes = Some m, Changed = False, IndexPath = ''indexes.json'', logger = []\<rparr>"

text \<open>
  The candidates of an \<^verbatim>\<open>Authorization\<close> value and what is put before the selected one:
  the trimmed rest and \<^verbatim>\<open>"Bearer "\<close> when the first seven bytes are \<^verbatim>\<open>"bearer "\<close> up to the
  case of the letters, the value itself and nothing otherwise.
\<close>

definition authCandidates :: "string \<Rightarrow> string list" where
  "authCandidates h =
     (if 7 \<le> length h \<and> ToLower (take 7 h) = ''bearer '' then Split (TrimSpace (drop 7 h))
      else Split h)"

definition authPrefix :: "string \<Rightarrow> string" where
  "authPrefix h = (if 7 \<le> length h \<and> ToLower (take 7 h) = ''bearer '' then ''Bearer '' else [])"

text \<open>
  The largest \<^verbatim>\<open>int\<close>, and the tables whose positions are not negative and below it.
\<close>

definition max_int :: int where "max_int = 2 ^ 63 - 1"

definition positions_in_range :: "(string, int64) fmap \<Rightarrow> bool" where
  "positions_in_range m = (\<forall>k v. fmlookup m k = Some v \<longrightarrow> 0 \<le> sint v \<and> sint v < max_int)"

text \<open>
  A request with exactly one credential list: which header carries it, its candidates
  and what is put before the selected one.
\<close>

definition one_list :: "Request \<Rightarrow> bool" where
  "one_list r =
     (Header_Get (Header r) ''Authorization'' = [] \<longleftrightarrow> Header_Get (Header r) ''X-Goog-Api-Key'' \<noteq> [])"

definition candidates :: "Request \<Rightarrow> string list" where
  "candidates r =
     (if Header_Get (Header r) ''Authorization'' \<noteq> []
      then authCandidates (Header_Get (Header r) ''Authorization'')
      else Split (Header_Get (Header r) ''X-Goog-Api-Key''))"

definition credential_header :: "Request \<Rightarrow> string" where
  "credential_header r =
     (if Header_Get (Header r) ''Authorization'' \<noteq> [] then ''Authorization'' else ''X-Goog-Api-Key'')"

definition credential_prefix :: "Request \<Rightarrow> string" where
  "credential_prefix r =
     (if Header_Get (Header r) ''Authorization'' \<noteq> []
      then authPrefix (Header_Get (Header r) ''Authorization'') else [])"

text \<open>A sequence of requests served one after the other, with the requests handed on.\<close>

fun serve_all :: "AuthModifier \<Rightarrow> Request list \<Rightarrow> panic + AuthModifier \<times> Request list" where
  "serve_all a [] = Inr (a, [])"
| "serve_all a (r # rs) =
     (case ServeHTTP a r of
        Inl p \<Rightarrow> Inl p
      | Inr (a', r') \<Rightarrow>
          (case serve_all a' rs of Inl p \<Rightarrow> Inl p | Inr (a'', rs') \<Rightarrow> Inr (a'', r' # rs')))"

text \<open>
  A string with every byte that starts no well-formed UTF-8 sequence replaced by U+FFFD,
  and the strings that are well-formed UTF-8 throughout.
\<close>

fun coerce :: "string \<Rightarrow> string" where
  "coerce [] = []"
| "coerce (c # cs) =
     (if utf8_width (c # cs) = 0 then [CHR 0xEF, CHR 0xBF, CHR 0xBD] @ coerce cs
      else take (utf8_width (c # cs)) (c # cs) @ coerce (drop (utf8_width (c # cs) - 1) cs))"

fun valid_utf8 :: "string \<Rightarrow> bool" where
  "valid_utf8 [] = True"
| "valid_utf8 (c # cs) =
     (utf8_width (c # cs) \<noteq> 0 \<and> valid_utf8 (drop (utf8_width (c # cs) - 1) cs))"


text \<open>What may follow a number literal: the end of the input or a byte that is no digit.\<close>

definition ends_number :: "string \<Rightarrow> bool" where
  "ends_number rest = (rest = [] \<or> \<not> is_digit (hd rest))"


text \<open>A handler before \<^verbatim>\<open>Provision\<close>, as Caddy makes it from a Caddyfile.\<close>

definition unprovisioned :: AuthModifier where
  "unprovisioned = \<lparr>Indexes = None, Changed = False, IndexPath = ''indexes.json'', logger = []\<rparr>"

text \<open>\<^verbatim>\<open>strings.Join(tokens, ",")\<close>: the strings with a comma between each two.\<close>

fun join_commas :: "string list \<Rightarrow> string" where
  "join_commas [] = []"
| "join_commas [t] = t"
| "join_commas (t # u # ts) = t @ '','' @ join_commas (u # ts)"

section \<open>Arithmetic of positions\<close>

lemma smod_between: "min 0 k \<le> (k::int) smod n \<and> k smod n \<le> max 0 k"
proof -
  have a: "\<bar>k\<bar> mod \<bar>n\<bar> \<le> \<bar>k\<bar>"
    by (cases "n = 0") (simp_all add: zmod_le_nonneg_dividend)
  have b: "0 \<le> \<bar>k\<bar> mod \<bar>n\<bar>"
    by (cases "n = 0") simp_all
  consider "k < 0" | "k = 0" | "0 < k" by linarith
  then show ?thesis
  proof cases
    case 1 with a b show ?thesis by (simp add: signed_modulo_int_def)
  next
    case 2 then show ?thesis by (simp add: signed_modulo_int_def)
  next
    case 3 with a b show ?thesis by (simp add: signed_modulo_int_def)
  qed
qed

lemma smod_nonneg: "0 \<le> k \<Longrightarrow> 0 < n \<Longrightarrow> (k::int) smod n = k mod n"
  by (cases "k = 0") (simp_all add: signed_modulo_int_def)

lemma sint_of_smod: "sint (word_of_int (sint (x::int64) smod n) :: int64) = sint x smod n"
proof -
  have "min 0 (sint x) \<le> sint x smod n \<and> sint x smod n \<le> max 0 (sint x)"
    by (rule smod_between)
  moreover have "- (2 ^ 63) \<le> sint x" "sint x < 2 ^ 63"
    using sint_ge [of x] sint_lt [of x] by simp_all
  ultimately have "- (2 ^ 63) \<le> sint x smod n \<and> sint x smod n < 2 ^ 63"
    by simp linarith
  then show ?thesis
    by (simp add: sint_sbintrunc' signed_take_bit_int_eq_self)
qed

lemma sint_succ: "sint (x::int64) < 2 ^ 63 - 1 \<Longrightarrow> sint (x + 1) = sint x + 1"
proof -
  assume "sint x < 2 ^ 63 - 1"
  moreover have "- (2 ^ 63) \<le> sint x" using sint_ge [of x] by simp
  ultimately show ?thesis
    by (simp add: sint_word_ariths signed_take_bit_int_eq_self)
qed

lemma go_rem_nonneg:
  assumes "0 \<le> sint x" and "0 < n"
  shows "go_rem x n = Inr (word_of_int (sint x mod n))"
  using assms by (simp add: go_rem_def smod_nonneg)

lemma sint_go_rem:
  assumes "0 \<le> sint (x::int64)" and "0 < n"
  shows "sint (word_of_int (sint x mod n) :: int64) = sint x mod n"
  using sint_of_smod [of x n] assms by (simp add: smod_nonneg)

section \<open>The steps of the handler\<close>

lemma Split_not_Nil: "Split s \<noteq> []"
  by (induction s) (auto split: list.splits)

lemma Split_length_le: "length (Split s) \<le> Suc (length s)"
  by (induction s) (auto split: list.splits)

lemma selection_less: "tokens \<noteq> [] \<Longrightarrow> selection index tokens < length tokens"
  by (simp add: selection_def nat_less_iff)

lemma go_index_selected:
  assumes "0 \<le> sint index" and "tokens \<noteq> []"
  shows "go_index tokens (word_of_int (sint index mod int (length tokens)))
           = Inr (tokens ! selection index tokens)"
  using assms by (simp add: go_index_def sint_go_rem selection_def)

lemma updateIndex_Some:
  assumes "Indexes a \<noteq> None" and "n \<noteq> 0"
  shows "updateIndex url n a =
           Inr (a\<lparr>Indexes := Some (fmupd url
                      (word_of_int (sint (map_read (Indexes a) url + 1) smod n)) (the (Indexes a))),
                  Changed := True\<rparr>)"
  using assms by (auto simp: updateIndex_def go_rem_def)

lemma rotate_Some:
  assumes "Indexes a \<noteq> None" and "tokens \<noteq> []" and "0 \<le> sint index"
  shows "rotate name pfx tokens index (a, r) =
           Inr (a\<lparr>Indexes := Some (fmupd (Path r)
                      (word_of_int (sint (map_read (Indexes a) (Path r) + 1) smod int (length tokens)))
                      (the (Indexes a))),
                   Changed := True,
                   logger := logger a @ [LogDebug (''Set '' @ name) (pfx @ tokens ! selection index tokens)]\<rparr>,
                r\<lparr>Header := Header_Set (Header r) name (pfx @ tokens ! selection index tokens)\<rparr>)"
  using assms
  by (simp add: rotate_def go_rem_nonneg go_index_selected updateIndex_Some)

lemma isBearer_iff: "isBearer h \<longleftrightarrow> 7 \<le> length h \<and> ToLower (take 7 h) = ''bearer ''"
  by (auto simp: isBearer_def HasPrefix_def ToLower_def)

lemma Header_Get_Set: "Header_Get (Header_Set h k v) k' = (if k' = k then v else Header_Get h k')"
  by (simp add: Header_Get_def Header_Set_def)

lemma Header_Get_upd:
  "Header_Get (h(k \<mapsto> vs)) k' =
     (if k' = k then (case vs of [] \<Rightarrow> [] | v # _ \<Rightarrow> v) else Header_Get h k')"
  by (simp add: Header_Get_def)

lemma Header_Get_empty: "Header_Get Map.empty k = []"
  by (simp add: Header_Get_def)

section \<open>Properties of the handler\<close>

text \<open>
  C5. Let \<open>h\<close> be the \<^verbatim>\<open>Authorization\<close> value of a request, served by a handler with a
  table and a non-negative position for the request's path. If \<open>h\<close> has at least seven
  bytes and its first seven equal \<^verbatim>\<open>"bearer "\<close> up to the case of the letters, the value
  handed on is \<^verbatim>\<open>"Bearer "\<close> followed by the selected candidate of the trimmed rest. If
  \<open>h\<close> is not empty and does not start so, \<open>h\<close> itself is split at the commas and the
  selected candidate is handed on with nothing before it.
\<close>

theorem authorization_reinjection:
  assumes "Indexes a = Some m"
    and "0 \<le> sint (map_read (Indexes a) (Path r))"
    and "Header_Get (Header r) ''Authorization'' = h"
  shows "(7 \<le> length h \<and> ToLower (take 7 h) = ''bearer '' \<longrightarrow>
           (\<exists>a' r'. ServeHTTP a r = Inr (a', r') \<and>
              Header_Get (Header r') ''Authorization'' =
                ''Bearer '' @ Split (TrimSpace (drop 7 h)) !
                   selection (map_read (Indexes a) (Path r)) (Split (TrimSpace (drop 7 h)))))
       \<and> (h \<noteq> [] \<and> \<not> (7 \<le> length h \<and> ToLower (take 7 h) = ''bearer '') \<longrightarrow>
           (\<exists>a' r'. ServeHTTP a r = Inr (a', r') \<and>
              Header_Get (Header r') ''Authorization'' =
                Split h ! selection (map_read (Indexes a) (Path r)) (Split h)))"
  using assms
  by (simp add: ServeHTTP_def Let_def isBearer_iff rotate_Some Split_not_Nil Header_Get_Set)

lemma ex_tokens: "Split (TrimSpace (drop 7 ''BEARER k1,k2'')) = [''k1'', ''k2'']"
  by code_simp

lemma ex_bearer: "ToLower (take 7 ''BEARER k1,k2'') = ''bearer ''"
  by code_simp

lemma ex_raw_tokens: "Split ''k1,k2'' = [''k1'', ''k2'']"
  by code_simp

theorem authorization_reinjection_witness:
  "(\<exists>a' r'. ServeHTTP (provisioned (fmupd ''/v1'' 1 fmempty))
               \<lparr>Path = ''/v1'', Header = [''Authorization'' \<mapsto> [''BEARER k1,k2'']]\<rparr> = Inr (a', r') \<and>
            Header_Get (Header r') ''Authorization'' = ''Bearer k2'')
   \<and> (\<exists>a' r'. ServeHTTP (provisioned (fmupd ''/v1'' 1 fmempty))
               \<lparr>Path = ''/v1'', Header = [''Authorization'' \<mapsto> [''k1,k2'']]\<rparr> = Inr (a', r') \<and>
            Header_Get (Header r') ''Authorization'' = ''k2'')"
  using authorization_reinjection [of "provisioned (fmupd ''/v1'' 1 fmempty)" "fmupd ''/v1'' 1 fmempty"
      "\<lparr>Path = ''/v1'', Header = [''Authorization'' \<mapsto> [''BEARER k1,k2'']]\<rparr>" "''BEARER k1,k2''"]
    authorization_reinjection [of "provisioned (fmupd ''/v1'' 1 fmempty)" "fmupd ''/v1'' 1 fmempty"
      "\<lparr>Path = ''/v1'', Header = [''Authorization'' \<mapsto> [''k1,k2'']]\<rparr>" "''k1,k2''"]
  by (simp add: provisioned_def map_read_def Header_Get_upd selection_def
      ex_tokens ex_bearer ex_raw_tokens
      del: take_Suc_Cons drop_Suc_Cons take_Cons_numeral drop_Cons_numeral)

text \<open>
  C8. A request whose \<^verbatim>\<open>Authorization\<close> value is empty and that has no
  \<^verbatim>\<open>X-Goog-Api-Key\<close> value goes through the handler untouched: the request handed on is
  the request received, and the handler's state (the table, the changed flag, the log)
  is what it was, so no position was advanced.
\<close>

theorem ServeHTTP_no_credentials:
  assumes "Header_Get (Header r) ''Authorization'' = []"
    and "Header_Get (Header r) ''X-Goog-Api-Key'' = []"
  shows "ServeHTTP a r = Inr (a, r)"
  using assms by (simp add: ServeHTTP_def isBearer_def)

theorem ServeHTTP_no_credentials_witness:
  "ServeHTTP (provisioned fmempty)
       \<lparr>Path = ''/v1'', Header = [''Accept'' \<mapsto> [''*/*''], ''Authorization'' \<mapsto> []]\<rparr>
     = Inr (provisioned fmempty,
        \<lparr>Path = ''/v1'', Header = [''Accept'' \<mapsto> [''*/*''], ''Authorization'' \<mapsto> []]\<rparr>)"
  using ServeHTTP_no_credentials
    [of "\<lparr>Path = ''/v1'', Header = [''Accept'' \<mapsto> [''*/*''], ''Authorization'' \<mapsto> []]\<rparr>"
      "provisioned fmempty"]
  by (simp add: Header_Get_upd Header_Get_empty)

lemma go_rem_Inr: "n \<noteq> 0 \<Longrightarrow> go_rem x n = Inr (word_of_int (sint x smod n))"
  by (simp add: go_rem_def)

text \<open>
  C7. A request with both an \<^verbatim>\<open>Authorization\<close> value and an \<^verbatim>\<open>X-Goog-Api-Key\<close> value,
  served by a handler with a table and a non-negative position \<open>p\<close> for the request's
  path: both credentials are selected with the same \<open>p\<close>, read before either advance,
  and the one position of the path is advanced twice, first modulo the number of
  \<^verbatim>\<open>Authorization\<close> candidates, then modulo the number of API keys.
\<close>

theorem shared_position:
  assumes "Indexes a = Some m"
    and "0 \<le> sint (map_read (Indexes a) (Path r))"
    and "Header_Get (Header r) ''Authorization'' = h" and "h \<noteq> []"
    and "Header_Get (Header r) ''X-Goog-Api-Key'' = k" and "k \<noteq> []"
  shows "\<exists>a' r' v1 v2. ServeHTTP a r = Inr (a', r')
           \<and> Header_Get (Header r') ''Authorization'' =
               authPrefix h @ authCandidates h ! selection (map_read (Indexes a) (Path r)) (authCandidates h)
           \<and> Header_Get (Header r') ''X-Goog-Api-Key'' =
               Split k ! selection (map_read (Indexes a) (Path r)) (Split k)
           \<and> go_rem (map_read (Indexes a) (Path r) + 1) (int (length (authCandidates h))) = Inr v1
           \<and> go_rem (v1 + 1) (int (length (Split k))) = Inr v2
           \<and> Indexes a' = Some (fmupd (Path r) v2 m)
           \<and> Changed a'"
  using assms
  by (simp add: ServeHTTP_def Let_def isBearer_iff rotate_Some Split_not_Nil Header_Get_Set
      authCandidates_def authPrefix_def go_rem_Inr map_read_def)

lemma ex_shared_tokens: "authCandidates ''Bearer a,b,c'' = [''a'', ''b'', ''c'']"
  by code_simp

lemma ex_shared_prefix: "authPrefix ''Bearer a,b,c'' = ''Bearer ''"
  by code_simp

lemma ex_shared_keys: "Split ''x,y'' = [''x'', ''y'']"
  by code_simp

lemma ex_shared_rem: "go_rem 3 3 = Inr 0" "go_rem 1 2 = Inr 1"
  by (simp_all add: go_rem_def signed_modulo_int_def)

theorem shared_position_witness:
  "\<exists>a' r'. ServeHTTP (provisioned (fmupd ''/v1'' 2 fmempty))
       \<lparr>Path = ''/v1'',
          Header = [''Authorization'' \<mapsto> [''Bearer a,b,c''], ''X-Goog-Api-Key'' \<mapsto> [''x,y'']]\<rparr>
       = Inr (a', r')
     \<and> Header_Get (Header r') ''Authorization'' = ''Bearer c''
     \<and> Header_Get (Header r') ''X-Goog-Api-Key'' = ''x''
     \<and> Indexes a' = Some (fmupd ''/v1'' 1 fmempty)
     \<and> Changed a'"
  using shared_position [of "provisioned (fmupd ''/v1'' 2 fmempty)" "fmupd ''/v1'' 2 fmempty"
      "\<lparr>Path = ''/v1'',
          Header = [''Authorization'' \<mapsto> [''Bearer a,b,c''], ''X-Goog-Api-Key'' \<mapsto> [''x,y'']]\<rparr>"
      "''Bearer a,b,c''" "''x,y''"]
  by (simp add: provisioned_def map_read_def Header_Get_upd selection_def
      ex_shared_tokens ex_shared_prefix ex_shared_keys ex_shared_rem)

lemma map_read_in_range:
  "positions_in_range m \<Longrightarrow> 0 \<le> sint (map_read (Some m) k) \<and> sint (map_read (Some m) k) < max_int"
  by (auto simp: positions_in_range_def map_read_def max_int_def split: option.splits)

lemma advance_in_range:
  assumes "0 \<le> sint (x::int64)" and "sint x < max_int" and "0 < n"
  shows "sint (word_of_int (sint (x + 1) smod n) :: int64) = (sint x + 1) mod n"
    and "0 \<le> sint (word_of_int (sint (x + 1) smod n) :: int64)"
    and "sint (word_of_int (sint (x + 1) smod n) :: int64) < n"
proof -
  have s: "sint (x + 1) = sint x + 1"
    using assms(2) by (simp add: sint_succ max_int_def)
  show e: "sint (word_of_int (sint (x + 1) smod n) :: int64) = (sint x + 1) mod n"
  proof -
    have "sint (word_of_int (sint (x + 1) smod n) :: int64) = sint (x + 1) smod n"
      by (rule sint_of_smod)
    also have "\<dots> = (sint x + 1) smod n" by (simp only: s)
    also have "\<dots> = (sint x + 1) mod n"
      using assms(1,3) by (intro smod_nonneg) simp_all
    finally show ?thesis .
  qed
  show "0 \<le> sint (word_of_int (sint (x + 1) smod n) :: int64)"
    using assms(3) by (simp add: e)
  show "sint (word_of_int (sint (x + 1) smod n) :: int64) < n"
    using assms(3) by (simp add: e)
qed

lemma positions_in_range_upd:
  assumes "positions_in_range m" and "0 < n" and "n \<le> max_int"
  shows "positions_in_range (fmupd k (word_of_int (sint (map_read (Some m) k + 1) smod n)) m)"
proof -
  from map_read_in_range [OF assms(1), of k]
  have x: "0 \<le> sint (map_read (Some m) k)" "sint (map_read (Some m) k) < max_int" by simp_all
  from advance_in_range(2,3) [OF x assms(2)] assms(3)
  have "0 \<le> sint (word_of_int (sint (map_read (Some m) k + 1) smod n) :: int64)
      \<and> sint (word_of_int (sint (map_read (Some m) k + 1) smod n) :: int64) < max_int"
    by simp
  with assms(1) show ?thesis
    by (auto simp: positions_in_range_def)
qed

lemma rotate_in_range:
  assumes "Indexes a = Some m" and "positions_in_range m" and "tokens \<noteq> []"
    and "int (length tokens) \<le> max_int" and "0 \<le> sint index"
  shows "\<exists>a' r' m'. rotate name pfx tokens index (a, r) = Inr (a', r')
           \<and> Path r' = Path r \<and> Indexes a' = Some m' \<and> positions_in_range m'"
  using assms positions_in_range_upd [of m "int (length tokens)" "Path r"]
  by (simp add: rotate_Some)

lemma Split_fits: "int (length s) < max_int \<Longrightarrow> int (length (Split s)) \<le> max_int"
  using Split_length_le [of s] by simp

lemma rotate_no_div: "rotate name pfx tokens index ar \<noteq> Inl DivideByZero"
  by (cases ar)
    (auto simp: rotate_def go_rem_def go_index_def updateIndex_def Let_def
      split: sum.splits option.splits if_splits)

lemma TrimLeftSpace_length: "length (TrimLeftSpace s) \<le> length s"
proof (induction s rule: TrimLeftSpace.induct)
  case (1 s)
  show ?case
  proof (cases "leading_space s = 0")
    case True
    then show ?thesis by (subst TrimLeftSpace.simps) simp
  next
    case False
    with 1 have "length (TrimLeftSpace (drop (leading_space s) s)) \<le> length (drop (leading_space s) s)"
      by simp
    with False show ?thesis by (subst TrimLeftSpace.simps) simp
  qed
qed

lemma TrimRightSpace_length: "length (TrimRightSpace s) \<le> length s"
proof (induction s rule: TrimRightSpace.induct)
  case (1 s)
  show ?case
  proof (cases "trailing_space s = 0")
    case True
    then show ?thesis by (subst TrimRightSpace.simps) simp
  next
    case False
    with 1 have "length (TrimRightSpace (take (length s - trailing_space s) s))
        \<le> length (take (length s - trailing_space s) s)"
      by simp
    with False show ?thesis by (subst TrimRightSpace.simps) simp
  qed
qed

lemma TrimSpace_length: "length (TrimSpace s) \<le> length s"
  using TrimRightSpace_length [of "TrimLeftSpace s"] TrimLeftSpace_length [of s]
  by (simp add: TrimSpace_def)

lemma bearer_tokens_fit:
  assumes "int (length h) < max_int"
  shows "int (length (Split (TrimSpace (drop 7 h)))) \<le> max_int"
proof -
  have "length (TrimSpace (drop 7 h)) \<le> length h"
    using TrimSpace_length [of "drop 7 h"] by simp
  with assms have "int (length (TrimSpace (drop 7 h))) < max_int" by simp
  then show ?thesis by (rule Split_fits)
qed

lemma ServeHTTP_in_range:
  assumes "Indexes a = Some m" and "positions_in_range m"
    and "int (length (Header_Get (Header r) ''Authorization'')) < max_int"
    and "int (length (Header_Get (Header r) ''X-Goog-Api-Key'')) < max_int"
  shows "\<exists>a' r' m'. ServeHTTP a r = Inr (a', r') \<and> Indexes a' = Some m' \<and> positions_in_range m'"
proof -
  let ?index = "map_read (Indexes a) (Path r)"
  let ?h = "Header_Get (Header r) ''Authorization''"
  let ?k = "Header_Get (Header r) ''X-Goog-Api-Key''"
  have idx: "0 \<le> sint ?index"
    using map_read_in_range [OF assms(2), of "Path r"] assms(1) by simp
  define step1 where "step1 =
    (if isBearer ?h then
       rotate ''Authorization'' ''Bearer '' (Split (TrimSpace (drop 7 ?h))) ?index (a, r)
     else if 0 < length ?h then rotate ''Authorization'' [] (Split ?h) ?index (a, r)
     else Inr (a, r))"
  have "\<exists>a1 r1 m1. step1 = Inr (a1, r1) \<and> Path r1 = Path r
          \<and> Header_Get (Header r1) ''X-Goog-Api-Key'' = ?k
          \<and> Indexes a1 = Some m1 \<and> positions_in_range m1"
    using assms(1,2) idx bearer_tokens_fit [OF assms(3)] Split_fits [OF assms(3)]
    by (simp add: step1_def rotate_Some Split_not_Nil Header_Get_Set positions_in_range_upd)
  then obtain a1 r1 m1 where s1: "step1 = Inr (a1, r1)" and p1: "Path r1 = Path r"
    and k1: "Header_Get (Header r1) ''X-Goog-Api-Key'' = ?k"
    and i1: "Indexes a1 = Some m1" and ok1: "positions_in_range m1"
    by blast
  have serve: "ServeHTTP a r =
      (if 0 < length ?k then rotate ''X-Goog-Api-Key'' [] (Split ?k) ?index (a1, r1)
       else Inr (a1, r1))"
    using s1 by (simp add: ServeHTTP_def Let_def step1_def)
  show ?thesis
  proof (cases "0 < length ?k")
    case True
    from rotate_in_range [OF i1 ok1 Split_not_Nil Split_fits [OF assms(4)] idx,
        of "''X-Goog-Api-Key''" "[]" r1]
    show ?thesis using True serve by auto
  next
    case False
    with serve i1 ok1 show ?thesis by simp
  qed
qed


lemma updateIndex_in_range:
  assumes "Indexes a = Some m" and "positions_in_range m" and "0 < n"
  shows "\<exists>a'. updateIndex url n a = Inr a'
           \<and> sint (map_read (Indexes a') url) = (sint (map_read (Indexes a) url) + 1) mod n
           \<and> 0 \<le> sint (map_read (Indexes a') url) \<and> sint (map_read (Indexes a') url) < n"
proof -
  from map_read_in_range [OF assms(2), of url]
  have x: "0 \<le> sint (map_read (Some m) url)" "sint (map_read (Some m) url) < max_int" by simp_all
  have "map_read (Some (fmupd url v m)) url = v" for v
    by (simp add: map_read_def)
  with advance_in_range [OF x assms(3)] assms(1,3) show ?thesis
    by (simp add: updateIndex_Some)
qed

text \<open>
  C9, as the code has it. The handler is served with a table whose positions are not
  negative and below the largest \<^verbatim>\<open>int\<close>, and header values whose lengths are lengths of
  Go strings. Then the request is served without a panic (every selection index is
  within its candidate list) and the table it leaves has its positions in the same
  range; an advance with a count of at least 1 writes back the successor modulo the
  count, a value from 0 up to the count; and no request at all makes the handler divide
  by zero.
\<close>

theorem positions_stay_in_range:
  assumes "Indexes a = Some m" and "positions_in_range m"
    and "int (length (Header_Get (Header r) ''Authorization'')) < max_int"
    and "int (length (Header_Get (Header r) ''X-Goog-Api-Key'')) < max_int"
  shows "(\<exists>a' r' m'. ServeHTTP a r = Inr (a', r') \<and> Indexes a' = Some m' \<and> positions_in_range m')
       \<and> (\<forall>url n. 0 < n \<longrightarrow>
            (\<exists>a'. updateIndex url n a = Inr a'
               \<and> sint (map_read (Indexes a') url) = (sint (map_read (Indexes a) url) + 1) mod n
               \<and> 0 \<le> sint (map_read (Indexes a') url) \<and> sint (map_read (Indexes a') url) < n))
       \<and> (\<forall>a0 r0. ServeHTTP a0 r0 \<noteq> Inl DivideByZero)"
proof (intro conjI allI impI)
  show "\<exists>a' r' m'. ServeHTTP a r = Inr (a', r') \<and> Indexes a' = Some m' \<and> positions_in_range m'"
    using assms by (rule ServeHTTP_in_range)
next
  fix url and n :: int
  assume "0 < n"
  with assms(1,2)
  show "\<exists>a'. updateIndex url n a = Inr a'
           \<and> sint (map_read (Indexes a') url) = (sint (map_read (Indexes a) url) + 1) mod n
           \<and> 0 \<le> sint (map_read (Indexes a') url) \<and> sint (map_read (Indexes a') url) < n"
    by (rule updateIndex_in_range)
next
  fix a0 r0
  show "ServeHTTP a0 r0 \<noteq> Inl DivideByZero"
    using rotate_no_div
    by (auto simp: ServeHTTP_def Let_def split: sum.splits if_splits)
qed

lemma ex_abc: "Split ''a,b,c'' = [''a'', ''b'', ''c'']"
  by code_simp

theorem positions_stay_in_range_witness:
  "positions_in_range (fmupd ''/v1'' 2 fmempty)
   \<and> (\<exists>a' r' m'. ServeHTTP (provisioned (fmupd ''/v1'' 2 fmempty))
          \<lparr>Path = ''/v1'', Header = [''Authorization'' \<mapsto> [''a,b,c'']]\<rparr> = Inr (a', r')
        \<and> Indexes a' = Some m' \<and> positions_in_range m')
   \<and> (\<exists>a'. updateIndex ''/v1'' 3 (provisioned (fmupd ''/v1'' 2 fmempty)) = Inr a'
        \<and> sint (map_read (Indexes a') ''/v1'') = 0)"
proof -
  have ok: "positions_in_range (fmupd ''/v1'' 2 fmempty)"
    by (simp add: positions_in_range_def max_int_def)
  have a: "Indexes (provisioned (fmupd ''/v1'' 2 fmempty)) = Some (fmupd ''/v1'' 2 fmempty)"
    by (simp add: provisioned_def)
  have h: "int (length (Header_Get (Header
        \<lparr>Path = ''/v1'', Header = [''Authorization'' \<mapsto> [''a,b,c'']]\<rparr>) ''Authorization'')) < max_int"
    by (simp add: Header_Get_upd max_int_def)
  have k: "int (length (Header_Get (Header
        \<lparr>Path = ''/v1'', Header = [''Authorization'' \<mapsto> [''a,b,c'']]\<rparr>) ''X-Goog-Api-Key'')) < max_int"
    by (simp add: Header_Get_upd Header_Get_empty max_int_def)
  note t = positions_stay_in_range [OF a ok h k]
  from t have "0 < (3::int) \<longrightarrow>
      (\<exists>a'. updateIndex ''/v1'' 3 (provisioned (fmupd ''/v1'' 2 fmempty)) = Inr a'
         \<and> sint (map_read (Indexes a') ''/v1'')
             = (sint (map_read (Indexes (provisioned (fmupd ''/v1'' 2 fmempty))) ''/v1'') + 1) mod 3
         \<and> 0 \<le> sint (map_read (Indexes a') ''/v1'') \<and> sint (map_read (Indexes a') ''/v1'') < 3)"
    by blast
  moreover have "(sint (map_read (Indexes (provisioned (fmupd ''/v1'' 2 fmempty))) ''/v1'') + 1) mod 3 = 0"
    by (simp add: provisioned_def map_read_def)
  ultimately have "\<exists>a'. updateIndex ''/v1'' 3 (provisioned (fmupd ''/v1'' 2 fmempty)) = Inr a'
        \<and> sint (map_read (Indexes a') ''/v1'') = 0"
    by auto
  with ok t show ?thesis by blast
qed

text \<open>
  Without the upper bound the positions do not stay non-negative: the position
  \<open>2\<^sup>6\<^sup>3 - 1\<close> is not negative, its successor wraps around to \<open>- 2\<^sup>6\<^sup>3\<close>, and the handler
  writes back \<open>- 2\<close> for three candidates.
\<close>

theorem positions_wrap_counterexample:
  "0 \<le> sint (9223372036854775807 :: int64)
   \<and> ServeHTTP (provisioned (fmupd ''/'' 9223372036854775807 fmempty))
        \<lparr>Path = ''/'', Header = [''Authorization'' \<mapsto> [''a,b,c'']]\<rparr>
      = Inr (\<lparr>Indexes = Some (fmupd ''/'' (- 2) fmempty), Changed = True,
               IndexPath = ''indexes.json'', logger = [LogDebug ''Set Authorization'' ''b'']\<rparr>,
             \<lparr>Path = ''/'', Header = [''Authorization'' \<mapsto> [''b'']]\<rparr>)
   \<and> sint (- 2 :: int64) < 0"
  by (simp add: ServeHTTP_def Let_def isBearer_def provisioned_def Header_Get_upd
      rotate_Some map_read_def ex_abc selection_def Header_Set_def Header_Get_empty
      signed_modulo_int_def)

lemma leading_space_rune: "e \<in> set space_runes \<Longrightarrow> leading_space (e @ s) = length e"
  unfolding space_runes_def leading_space_def
  by (elim disjE | simp)+

lemma leading_space_Nil: "leading_space [] = 0"
  by (simp add: leading_space_def space_runes_def)

lemma trailing_space_Nil: "trailing_space [] = 0"
  by (simp add: trailing_space_def space_runes_def)

lemma space_rune_not_Nil: "e \<in> set space_runes \<Longrightarrow> e \<noteq> []"
  by (auto simp: space_runes_def)

lemma TrimLeftSpace_runes: "set ws \<subseteq> set space_runes \<Longrightarrow> TrimLeftSpace (concat ws @ s) = TrimLeftSpace s"
proof (induction ws)
  case Nil
  then show ?case by simp
next
  case (Cons e ws)
  then have e: "e \<in> set space_runes" and ws: "set ws \<subseteq> set space_runes" by simp_all
  have "TrimLeftSpace (e @ concat ws @ s) = TrimLeftSpace (drop (length e) (e @ concat ws @ s))"
    using leading_space_rune [OF e, of "concat ws @ s"] space_rune_not_Nil [OF e]
    by (subst TrimLeftSpace.simps) simp
  with Cons.IH [OF ws] show ?case by simp
qed

lemma TrimSpace_blank: "set ws \<subseteq> set space_runes \<Longrightarrow> TrimSpace (concat ws) = []"
proof -
  assume "set ws \<subseteq> set space_runes"
  from TrimLeftSpace_runes [OF this, of "[]"] have "TrimLeftSpace (concat ws) = TrimLeftSpace []"
    by simp
  also have "\<dots> = []"
    by (subst TrimLeftSpace.simps) (simp add: leading_space_Nil)
  finally show ?thesis
    by (simp add: TrimSpace_def TrimRightSpace.simps [of "[]"] trailing_space_Nil)
qed

lemma smod_one: "(k::int) smod 1 = 0"
  by (simp add: signed_modulo_int_def)

lemma rotate_single:
  assumes "Indexes a \<noteq> None"
  shows "rotate name pfx [t] index (a, r) =
           Inr (a\<lparr>Indexes := Some (fmupd (Path r) 0 (the (Indexes a))),
                   Changed := True,
                   logger := logger a @ [LogDebug (''Set '' @ name) (pfx @ t)]\<rparr>,
                r\<lparr>Header := Header_Set (Header r) name (pfx @ t)\<rparr>)"
  using assms
  by (simp add: rotate_def go_rem_def go_index_def smod_one updateIndex_Some)

text \<open>
  C10. Splitting at the commas gives at least one candidate, whatever the string. An
  \<^verbatim>\<open>Authorization\<close> value made of the prefix (in any case of its letters) and white space
  only has the empty string as its single candidate: the handler, when it has a table,
  hands the request on with the value \<^verbatim>\<open>"Bearer "\<close>, sets the changed flag and stores a
  position for the path (0 when there is no API key to rotate as well). The position
  read has to be non-negative only when there is an API key to select.
\<close>

theorem blank_bearer_rewritten:
  assumes "Indexes a = Some m"
    and "Header_Get (Header r) ''Authorization'' = p @ concat ws"
    and "length p = 7" and "ToLower p = ''bearer ''"
    and "set ws \<subseteq> set space_runes"
    and "0 \<le> sint (map_read (Indexes a) (Path r)) \<or> Header_Get (Header r) ''X-Goog-Api-Key'' = []"
  shows "1 \<le> length (Split s)
       \<and> Split (TrimSpace (concat ws)) = [[]]
       \<and> (\<exists>a' r' m'. ServeHTTP a r = Inr (a', r')
             \<and> Header_Get (Header r') ''Authorization'' = ''Bearer ''
             \<and> Changed a'
             \<and> Indexes a' = Some m' \<and> fmlookup m' (Path r) \<noteq> None
             \<and> (Header_Get (Header r) ''X-Goog-Api-Key'' = [] \<longrightarrow> m' = fmupd (Path r) 0 m))"
proof -
  have len: "1 \<le> length (Split s)"
    using Split_not_Nil [of s] by (cases "Split s") simp_all
  have toks: "Split (TrimSpace (concat ws)) = [[]]"
    using assms(5) by (simp add: TrimSpace_blank)
  have bearer: "isBearer (p @ concat ws)"
    using assms(3,4) by (simp add: isBearer_iff)
  have rest: "drop 7 (p @ concat ws) = concat ws"
    using assms(3) by simp
  show ?thesis
  proof (cases "Header_Get (Header r) ''X-Goog-Api-Key'' = []")
    case True
    with assms(1,2) bearer rest toks len show ?thesis
      by (simp add: ServeHTTP_def Let_def rotate_single Header_Get_Set)
  next
    case False
    with assms(6) have "0 \<le> sint (map_read (Indexes a) (Path r))" by simp
    with False assms(1,2) bearer rest toks len show ?thesis
      by (simp add: ServeHTTP_def Let_def rotate_single rotate_Some Split_not_Nil Header_Get_Set)
  qed
qed


lemma ex_blank_prefix: "ToLower ''bEARER '' = ''bearer ''"
  by code_simp

theorem blank_bearer_rewritten_witness:
  "\<exists>a' r'. ServeHTTP (provisioned fmempty)
       \<lparr>Path = ''/v1'',
          Header = [''Authorization'' \<mapsto> [''bEARER '' @ [CHR 0x20, CHR 0xC2, CHR 0xA0, CHR 0x09]]]\<rparr>
       = Inr (a', r')
     \<and> Header_Get (Header r') ''Authorization'' = ''Bearer ''
     \<and> Changed a'
     \<and> Indexes a' = Some (fmupd ''/v1'' 0 fmempty)"
proof -
  have a: "Indexes (provisioned fmempty) = Some fmempty"
    by (simp add: provisioned_def)
  have h: "Header_Get (Header \<lparr>Path = ''/v1'',
          Header = [''Authorization'' \<mapsto> [''bEARER '' @ [CHR 0x20, CHR 0xC2, CHR 0xA0, CHR 0x09]]]\<rparr>)
        ''Authorization'' = ''bEARER '' @ concat [[CHR 0x20], [CHR 0xC2, CHR 0xA0], [CHR 0x09]]"
    by (simp add: Header_Get_upd)
  have l: "length ''bEARER '' = 7" by simp
  have w: "set [[CHR 0x20], [CHR 0xC2, CHR 0xA0], [CHR 0x09]] \<subseteq> set space_runes"
    by (simp add: space_runes_def)
  have k: "0 \<le> sint (map_read (Indexes (provisioned fmempty)) (Path \<lparr>Path = ''/v1'',
          Header = [''Authorization'' \<mapsto> [''bEARER '' @ [CHR 0x20, CHR 0xC2, CHR 0xA0, CHR 0x09]]]\<rparr>))
      \<or> Header_Get (Header \<lparr>Path = ''/v1'',
          Header = [''Authorization'' \<mapsto> [''bEARER '' @ [CHR 0x20, CHR 0xC2, CHR 0xA0, CHR 0x09]]]\<rparr>)
        ''X-Goog-Api-Key'' = []"
    by (simp add: Header_Get_upd Header_Get_empty)
  from blank_bearer_rewritten [OF a h l ex_blank_prefix w k] k show ?thesis
    by (auto simp: Header_Get_upd Header_Get_empty)
qed

lemma candidates_not_Nil: "candidates r \<noteq> []"
  by (simp add: candidates_def authCandidates_def Split_not_Nil)

lemma ServeHTTP_one_list:
  assumes "Indexes a \<noteq> None" and "one_list r" and "0 \<le> sint (map_read (Indexes a) (Path r))"
  shows "ServeHTTP a r =
           Inr (a\<lparr>Indexes := Some (fmupd (Path r)
                      (word_of_int (sint (map_read (Indexes a) (Path r) + 1)
                          smod int (length (candidates r))))
                      (the (Indexes a))),
                   Changed := True,
                   logger := logger a @ [LogDebug (''Set '' @ credential_header r)
                      (credential_prefix r @ candidates r ! selection (map_read (Indexes a) (Path r)) (candidates r))]\<rparr>,
                r\<lparr>Header := Header_Set (Header r) (credential_header r)
                      (credential_prefix r @ candidates r ! selection (map_read (Indexes a) (Path r)) (candidates r))\<rparr>)"
proof (cases "Header_Get (Header r) ''Authorization'' = []")
  case True
  with assms show ?thesis
    by (simp add: ServeHTTP_def Let_def isBearer_iff rotate_Some Split_not_Nil one_list_def
        candidates_def credential_header_def credential_prefix_def)
next
  case False
  with assms have "Header_Get (Header r) ''X-Goog-Api-Key'' = []"
    by (simp add: one_list_def)
  with False assms show ?thesis
    by (simp add: ServeHTTP_def Let_def isBearer_iff rotate_Some Split_not_Nil
        candidates_def credential_header_def credential_prefix_def authCandidates_def authPrefix_def)
qed

lemma serve_all_snoc:
  "serve_all a (rs @ [r]) =
     (case serve_all a rs of
        Inl p \<Rightarrow> Inl p
      | Inr (a', outs) \<Rightarrow>
          (case ServeHTTP a' r of Inl p \<Rightarrow> Inl p | Inr (a'', out) \<Rightarrow> Inr (a'', outs @ [out])))"
  by (induction rs arbitrary: a) (auto split: sum.splits prod.splits)

text \<open>One request of the cycle: from the position \<open>j mod n\<close> to the next one.\<close>

lemma cycle_step:
  assumes "Indexes a = Some m" and "one_list r" and "length (candidates r) = n"
    and "int n \<le> max_int" and "sint (map_read (Indexes a) (Path r)) = int (j mod n)"
  shows "\<exists>a' out m'. ServeHTTP a r = Inr (a', out) \<and> Indexes a' = Some m'
           \<and> Header_Get (Header out) (credential_header r)
               = credential_prefix r @ candidates r ! nat (sint (map_read (Indexes a) (Path r)))
           \<and> sint (map_read (Indexes a') (Path r)) = (sint (map_read (Indexes a) (Path r)) + 1) mod int n
           \<and> sint (map_read (Indexes a') (Path r)) = int (Suc j mod n)
           \<and> Changed a'"
proof -
  have n: "0 < n" using candidates_not_Nil [of r] assms(3) by auto
  let ?p = "map_read (Some m) (Path r)"
  have p: "sint ?p = int (j mod n)" using assms(1,5) by simp
  have p0: "0 \<le> sint ?p" using p by simp
  have pn: "sint ?p < int n" using p n by simp
  have pm: "sint ?p < max_int" using pn assms(4) by simp
  have sel: "selection ?p (candidates r) = nat (sint ?p)"
    using p0 pn assms(3) by (simp add: selection_def)
  have adv: "sint (word_of_int (sint (?p + 1) smod int n) :: int64) = (sint ?p + 1) mod int n"
    using advance_in_range(1) [OF p0 pm, of "int n"] n by simp
  have nxt: "(sint ?p + 1) mod int n = int (Suc j mod n)"
  proof -
    have "(sint ?p + 1) mod int n = (int j mod int n + 1) mod int n"
      by (simp add: p zmod_int)
    also have "\<dots> = (int j + 1) mod int n"
      by (simp add: mod_add_left_eq)
    also have "\<dots> = int (Suc j mod n)"
      by (simp add: zmod_int add.commute)
    finally show ?thesis .
  qed
  have rd: "map_read (Some (fmupd (Path r) v m)) (Path r) = v" for v
    by (simp add: map_read_def)
  from assms(1,2) p0 show ?thesis
    by (simp add: ServeHTTP_one_list Header_Get_Set sel assms(3) rd adv nxt)
qed


lemma cycle_run:
  assumes "\<forall>r\<in>set rs. Path r = key \<and> one_list r \<and> length (candidates r) = n"
    and "int n \<le> max_int"
    and "Indexes a = Some m" and "sint (map_read (Indexes a) key) = int (j mod n)"
  shows "\<exists>a' outs m'. serve_all a rs = Inr (a', outs) \<and> Indexes a' = Some m'
           \<and> sint (map_read (Indexes a') key) = int ((j + length rs) mod n)"
  using assms
proof (induction rs arbitrary: a m j)
  case Nil
  then show ?case by simp
next
  case (Cons r rs)
  then have r: "Path r = key" "one_list r" "length (candidates r) = n" by simp_all
  from cycle_step [OF Cons.prems(3) r(2,3) Cons.prems(2), of j] Cons.prems(4) r(1)
  obtain a1 out m1 where s: "ServeHTTP a r = Inr (a1, out)" and i1: "Indexes a1 = Some m1"
    and p1: "sint (map_read (Indexes a1) key) = int (Suc j mod n)"
    by auto
  from Cons.prems(1) have rest: "\<forall>r\<in>set rs. Path r = key \<and> one_list r \<and> length (candidates r) = n"
    by simp
  from Cons.IH [OF rest Cons.prems(2) i1 p1]
  obtain a' outs m' where "serve_all a1 rs = Inr (a', outs)" "Indexes a' = Some m'"
    "sint (map_read (Indexes a') key) = int ((Suc j + length rs) mod n)"
    by blast
  with s show ?case by simp
qed

text \<open>
  C1. A handler with a table serves requests for a path it has no position for, each
  with one credential list of \<open>n\<close> candidates. Then request number \<open>k\<close> (from 0) finds
  the position \<open>k mod n\<close> stored, selects the candidate at that stored position, and
  leaves the position \<open>(stored + 1) mod n\<close> and the changed flag set: the positions used
  are \<open>0, 1, \<dots>, n - 1, 0, 1, \<dots>\<close>.
\<close>

theorem round_robin:
  assumes "Indexes a = Some m" and "fmlookup m key = None"
    and "int n \<le> max_int"
    and "\<forall>r\<in>set rs. Path r = key \<and> one_list r \<and> length (candidates r) = n"
    and "k < length rs"
  shows "\<exists>a1 outs a2 out. serve_all a (take k rs) = Inr (a1, outs)
           \<and> sint (map_read (Indexes a1) key) = int (k mod n)
           \<and> ServeHTTP a1 (rs ! k) = Inr (a2, out)
           \<and> Header_Get (Header out) (credential_header (rs ! k))
               = credential_prefix (rs ! k) @ candidates (rs ! k) ! nat (sint (map_read (Indexes a1) key))
           \<and> sint (map_read (Indexes a2) key) = (sint (map_read (Indexes a1) key) + 1) mod int n
           \<and> Changed a2
           \<and> serve_all a (take (Suc k) rs) = Inr (a2, outs @ [out])"
proof -
  have start: "sint (map_read (Indexes a) key) = int (0 mod n)"
    using assms(1,2) by (simp add: map_read_def)
  have pre: "\<forall>r\<in>set (take k rs). Path r = key \<and> one_list r \<and> length (candidates r) = n"
    using assms(4) by (meson in_set_takeD)
  from cycle_run [OF pre assms(3,1) start] assms(5)
  obtain a1 outs m1 where run: "serve_all a (take k rs) = Inr (a1, outs)"
    and i1: "Indexes a1 = Some m1" and p1: "sint (map_read (Indexes a1) key) = int (k mod n)"
    by (auto simp: min_def)
  from assms(4,5) have r: "Path (rs ! k) = key" "one_list (rs ! k)" "length (candidates (rs ! k)) = n"
    by simp_all
  from cycle_step [OF i1 r(2,3) assms(3), of k] p1 r(1)
  obtain a2 out where s: "ServeHTTP a1 (rs ! k) = Inr (a2, out)"
    and h: "Header_Get (Header out) (credential_header (rs ! k))
               = credential_prefix (rs ! k) @ candidates (rs ! k) ! nat (sint (map_read (Indexes a1) key))"
    and p2: "sint (map_read (Indexes a2) key) = (sint (map_read (Indexes a1) key) + 1) mod int n"
    and c: "Changed a2"
    by auto
  have "take (Suc k) rs = take k rs @ [rs ! k]"
    using assms(5) by (simp add: take_Suc_conv_app_nth)
  with run s have "serve_all a (take (Suc k) rs) = Inr (a2, outs @ [out])"
    by (simp add: serve_all_snoc)
  with run p1 s h p2 c show ?thesis by blast
qed


lemma ex_keys: "Split ''key1,key2,key3'' = [''key1'', ''key2'', ''key3'']"
  by code_simp

theorem round_robin_witness:
  "\<exists>a1 outs a2 out.
      serve_all (provisioned fmempty)
        (take 2 (replicate 4 \<lparr>Path = ''/v1'', Header = [''X-Goog-Api-Key'' \<mapsto> [''key1,key2,key3'']]\<rparr>))
        = Inr (a1, outs)
    \<and> sint (map_read (Indexes a1) ''/v1'') = 2
    \<and> ServeHTTP a1 \<lparr>Path = ''/v1'', Header = [''X-Goog-Api-Key'' \<mapsto> [''key1,key2,key3'']]\<rparr> = Inr (a2, out)
    \<and> Header_Get (Header out) ''X-Goog-Api-Key'' = ''key3''
    \<and> sint (map_read (Indexes a2) ''/v1'') = 0"
proof -
  let ?r = "\<lparr>Path = ''/v1'', Header = [''X-Goog-Api-Key'' \<mapsto> [''key1,key2,key3'']]\<rparr>"
  have a: "Indexes (provisioned fmempty) = Some fmempty"
    by (simp add: provisioned_def)
  have f: "fmlookup fmempty ''/v1'' = None" by simp
  have n: "int 3 \<le> max_int" by (simp add: max_int_def)
  have c: "candidates ?r = [''key1'', ''key2'', ''key3'']"
    by (simp add: candidates_def Header_Get_upd Header_Get_empty ex_keys)
  have h: "credential_header ?r = ''X-Goog-Api-Key''" "credential_prefix ?r = []"
    by (simp_all add: credential_header_def credential_prefix_def Header_Get_upd Header_Get_empty)
  have rs: "\<forall>r\<in>set (replicate 4 ?r). Path r = ''/v1'' \<and> one_list r \<and> length (candidates r) = 3"
    by (simp add: c one_list_def Header_Get_upd Header_Get_empty)
  have k: "2 < length (replicate 4 ?r)" by simp
  from round_robin [OF a f n rs k] show ?thesis
    by (auto simp: c h)
qed

section \<open>The candidates of a bearer value\<close>

lemma join_commas_Cons: "join_commas ((c # t) # ts) = c # join_commas (t # ts)"
  by (cases ts) simp_all

lemma join_commas_Split: "join_commas (Split s) = s"
proof (induction s)
  case Nil
  show ?case by simp
next
  case (Cons c cs)
  obtain t ts where ts: "Split cs = t # ts"
    using Split_not_Nil [of cs] by (cases "Split cs") auto
  with Cons show ?case
    by (simp add: join_commas_Cons)
qed

lemma Split_no_comma: "t \<in> set (Split s) \<Longrightarrow> CHR '','' \<notin> set t"
proof (induction s arbitrary: t)
  case Nil
  then show ?case by simp
next
  case (Cons c cs)
  obtain u us where us: "Split cs = u # us"
    using Split_not_Nil [of cs] by (cases "Split cs") auto
  with Cons show ?case
    by (auto split: if_splits)
qed

lemma find_SomeD: "find P xs = Some x \<Longrightarrow> x \<in> set xs \<and> P x"
  by (induction xs) (auto split: if_splits)

lemma leading_space_zero: "leading_space s = 0 \<longleftrightarrow> (\<forall>e\<in>set space_runes. \<not> prefix e s)"
proof (cases "find (\<lambda>e. prefix e s) space_runes")
  case None
  have "leading_space s = 0" by (simp add: leading_space_def None)
  moreover have "\<forall>e\<in>set space_runes. \<not> prefix e s"
    using None by (simp add: find_None_iff)
  ultimately show ?thesis by simp
next
  case (Some e)
  from find_SomeD [OF Some] space_rune_not_Nil [of e] Some show ?thesis
    by (auto simp: leading_space_def)
qed

lemma trailing_space_zero: "trailing_space s = 0 \<longleftrightarrow> (\<forall>e\<in>set space_runes. \<not> suffix e s)"
proof (cases "find (\<lambda>e. suffix e s) space_runes")
  case None
  have "trailing_space s = 0" by (simp add: trailing_space_def None)
  moreover have "\<forall>e\<in>set space_runes. \<not> suffix e s"
    using None by (simp add: find_None_iff)
  ultimately show ?thesis by simp
next
  case (Some e)
  from find_SomeD [OF Some] space_rune_not_Nil [of e] Some show ?thesis
    by (auto simp: trailing_space_def)
qed

lemma leading_space_prefix:
  assumes "leading_space s \<noteq> 0"
  shows "\<exists>e\<in>set space_runes. s = e @ drop (leading_space s) s"
proof -
  from assms obtain e where f: "find (\<lambda>e. prefix e s) space_runes = Some e"
    by (auto simp: leading_space_def split: option.splits)
  from find_SomeD [OF f] have e: "e \<in> set space_runes" "prefix e s" by simp_all
  from e(2) obtain z where "s = e @ z" by (auto simp: prefix_def)
  then have "s = e @ drop (leading_space s) s"
    using f by (simp add: leading_space_def)
  with e(1) show ?thesis by blast
qed

lemma trailing_space_suffix:
  assumes "trailing_space s \<noteq> 0"
  shows "\<exists>e\<in>set space_runes. s = take (length s - trailing_space s) s @ e"
proof -
  from assms obtain e where f: "find (\<lambda>e. suffix e s) space_runes = Some e"
    by (auto simp: trailing_space_def split: option.splits)
  from find_SomeD [OF f] have e: "e \<in> set space_runes" "suffix e s" by simp_all
  from e(2) obtain z where "s = z @ e" by (auto simp: suffix_def)
  then have "s = take (length s - trailing_space s) s @ e"
    using f by (simp add: trailing_space_def)
  with e(1) show ?thesis by blast
qed

lemma TrimLeftSpace_split:
  "\<exists>ws. set ws \<subseteq> set space_runes \<and> s = concat ws @ TrimLeftSpace s
      \<and> leading_space (TrimLeftSpace s) = 0"
proof (induction s rule: TrimLeftSpace.induct)
  case (1 s)
  show ?case
  proof (cases "leading_space s = 0")
    case True
    then have "TrimLeftSpace s = s" by (subst TrimLeftSpace.simps) simp
    with True have "set [] \<subseteq> set space_runes \<and> s = concat [] @ TrimLeftSpace s
        \<and> leading_space (TrimLeftSpace s) = 0" by simp
    then show ?thesis by blast
  next
    case False
    let ?r = "drop (leading_space s) s"
    from leading_space_prefix [OF False] obtain e where e: "e \<in> set space_runes" "s = e @ ?r"
      by blast
    have t: "TrimLeftSpace s = TrimLeftSpace ?r"
      using False by (subst TrimLeftSpace.simps) simp
    from "1.IH" [OF False] obtain ws where ws: "set ws \<subseteq> set space_runes"
      "?r = concat ws @ TrimLeftSpace ?r" "leading_space (TrimLeftSpace ?r) = 0"
      by blast
    have "s = concat (e # ws) @ TrimLeftSpace s"
      using e(2) ws(2) t by (metis append_assoc concat.simps(2))
    with e(1) ws(1,3) t have "set (e # ws) \<subseteq> set space_runes \<and> s = concat (e # ws) @ TrimLeftSpace s
        \<and> leading_space (TrimLeftSpace s) = 0" by simp
    then show ?thesis by blast
  qed
qed

lemma TrimRightSpace_split:
  "\<exists>ws. set ws \<subseteq> set space_runes \<and> s = TrimRightSpace s @ concat ws
      \<and> trailing_space (TrimRightSpace s) = 0"
proof (induction s rule: TrimRightSpace.induct)
  case (1 s)
  show ?case
  proof (cases "trailing_space s = 0")
    case True
    then have "TrimRightSpace s = s" by (subst TrimRightSpace.simps) simp
    with True have "set [] \<subseteq> set space_runes \<and> s = TrimRightSpace s @ concat []
        \<and> trailing_space (TrimRightSpace s) = 0" by simp
    then show ?thesis by blast
  next
    case False
    let ?r = "take (length s - trailing_space s) s"
    from trailing_space_suffix [OF False] obtain e where e: "e \<in> set space_runes" "s = ?r @ e"
      by blast
    have t: "TrimRightSpace s = TrimRightSpace ?r"
      using False by (subst TrimRightSpace.simps) simp
    from "1.IH" [OF False] obtain ws where ws: "set ws \<subseteq> set space_runes"
      "?r = TrimRightSpace ?r @ concat ws" "trailing_space (TrimRightSpace ?r) = 0"
      by blast
    have "s = TrimRightSpace s @ concat (ws @ [e])"
      using e(2) ws(2) t by (metis append_assoc concat_append concat.simps append_Nil2)
    with e(1) ws(1,3) t have "set (ws @ [e]) \<subseteq> set space_runes \<and> s = TrimRightSpace s @ concat (ws @ [e])
        \<and> trailing_space (TrimRightSpace s) = 0" by simp
    then show ?thesis by blast
  qed
qed

lemma TrimSpace_split:
  "\<exists>ws1 ws2. set ws1 \<subseteq> set space_runes \<and> set ws2 \<subseteq> set space_runes
      \<and> s = concat ws1 @ TrimSpace s @ concat ws2
      \<and> (\<forall>e\<in>set space_runes. \<not> prefix e (TrimSpace s) \<and> \<not> suffix e (TrimSpace s))"
proof -
  from TrimLeftSpace_split [of s] obtain ws1 where 1: "set ws1 \<subseteq> set space_runes"
    "s = concat ws1 @ TrimLeftSpace s" "leading_space (TrimLeftSpace s) = 0" by blast
  from TrimRightSpace_split [of "TrimLeftSpace s"] obtain ws2 where 2: "set ws2 \<subseteq> set space_runes"
    "TrimLeftSpace s = TrimSpace s @ concat ws2" "trailing_space (TrimSpace s) = 0"
    by (auto simp: TrimSpace_def)
  have s: "s = concat ws1 @ TrimSpace s @ concat ws2"
    using 1(2) 2(2) by simp
  have "\<not> prefix e (TrimSpace s)" if "e \<in> set space_runes" for e
  proof
    assume "prefix e (TrimSpace s)"
    then have "prefix e (TrimLeftSpace s)"
      using 2(2) by (metis prefix_prefix)
    with 1(3) that show False by (simp add: leading_space_zero)
  qed
  moreover have "\<not> suffix e (TrimSpace s)" if "e \<in> set space_runes" for e
    using 2(3) that by (simp add: trailing_space_zero)
  ultimately show ?thesis using 1(1) 2(1) s by blast
qed

lemma bearer_served:
  assumes "Indexes a = Some m"
    and "0 \<le> sint (map_read (Indexes a) (Path r))"
    and "Header_Get (Header r) ''Authorization'' = h"
    and "7 \<le> length h" and "ToLower (take 7 h) = ''bearer ''"
  shows "\<exists>a' r'. ServeHTTP a r = Inr (a', r') \<and>
           Header_Get (Header r') ''Authorization'' =
             ''Bearer '' @ Split (TrimSpace (drop 7 h)) !
                selection (map_read (Indexes a) (Path r)) (Split (TrimSpace (drop 7 h)))"
  using assms
  by (simp add: ServeHTTP_def Let_def isBearer_iff rotate_Some Split_not_Nil Header_Get_Set)

text \<open>
  C6. For every \<^verbatim>\<open>Authorization\<close> value that starts with the prefix, served by a handler
  with a table and a non-negative position: the rest after the seven bytes of the
  prefix is white-space runes, a core and white-space runes, where the core neither
  starts nor ends with a white-space rune (the rest is trimmed as a whole, and by all of
  its outer white space); the candidates are the pieces of the core between its commas,
  byte for byte: none holds a comma, and joined with commas they are the core again, so
  no candidate is trimmed. The value handed on is \<^verbatim>\<open>"Bearer "\<close> and the selected candidate.
  For \<^verbatim>\<open>"Bearer key1, key2"\<close> the candidates are \<^verbatim>\<open>"key1"\<close> and \<^verbatim>\<open>" key2"\<close>.
\<close>

theorem bearer_list_not_trimmed_per_element:
  assumes "Indexes a = Some m"
    and "0 \<le> sint (map_read (Indexes a) (Path r))"
    and "Header_Get (Header r) ''Authorization'' = h"
    and "7 \<le> length h" and "ToLower (take 7 h) = ''bearer ''"
  shows "\<exists>ws1 core ws2 tokens a' r'.
           drop 7 h = concat ws1 @ core @ concat ws2
         \<and> set ws1 \<subseteq> set space_runes \<and> set ws2 \<subseteq> set space_runes
         \<and> (\<forall>e\<in>set space_runes. \<not> prefix e core \<and> \<not> suffix e core)
         \<and> core = TrimSpace (drop 7 h)
         \<and> tokens = Split core
         \<and> join_commas tokens = core
         \<and> (\<forall>t\<in>set tokens. CHR '','' \<notin> set t)
         \<and> ServeHTTP a r = Inr (a', r')
         \<and> Header_Get (Header r') ''Authorization''
             = ''Bearer '' @ tokens ! selection (map_read (Indexes a) (Path r)) tokens"
proof -
  let ?core = "TrimSpace (drop 7 h)"
  from TrimSpace_split [of "drop 7 h"] obtain ws1 ws2
    where ws: "set ws1 \<subseteq> set space_runes" "set ws2 \<subseteq> set space_runes"
      "drop 7 h = concat ws1 @ ?core @ concat ws2"
      "\<forall>e\<in>set space_runes. \<not> prefix e ?core \<and> \<not> suffix e ?core"
    by blast
  have j: "join_commas (Split ?core) = ?core" by (rule join_commas_Split)
  have c: "\<forall>t\<in>set (Split ?core). CHR '','' \<notin> set t"
    using Split_no_comma by blast
  from bearer_served [OF assms]
  obtain a' r' where s: "ServeHTTP a r = Inr (a', r')"
    "Header_Get (Header r') ''Authorization''
       = ''Bearer '' @ Split ?core ! selection (map_read (Indexes a) (Path r)) (Split ?core)"
    by blast
  from ws j c s show ?thesis by blast
qed


theorem bearer_list_not_trimmed_per_element_witness:
  "Split (TrimSpace (drop 7 ''Bearer key1, key2'')) = [''key1'', '' key2'']
   \<and> Split (TrimSpace (drop 7 ''Bearer   key1, key2  '')) = [''key1'', '' key2'']
   \<and> join_commas [''key1'', '' key2''] = ''key1, key2''
   \<and> ServeHTTP (provisioned fmempty)
        \<lparr>Path = ''/v1'', Header = [''Authorization'' \<mapsto> [''Bearer key1, key2'']]\<rparr>
      = Inr (\<lparr>Indexes = Some (fmupd ''/v1'' 1 fmempty), Changed = True,
               IndexPath = ''indexes.json'', logger = [LogDebug ''Set Authorization'' ''Bearer key1'']\<rparr>,
             \<lparr>Path = ''/v1'', Header = [''Authorization'' \<mapsto> [''Bearer key1'']]\<rparr>)
   \<and> (\<exists>a' r'. ServeHTTP (provisioned (fmupd ''/v1'' 1 fmempty))
          \<lparr>Path = ''/v1'', Header = [''Authorization'' \<mapsto> [''Bearer key1, key2'']]\<rparr> = Inr (a', r')
        \<and> Header_Get (Header r') ''Authorization'' = ''Bearer  key2'')"
proof -
  let ?r = "\<lparr>Path = ''/v1'', Header = [''Authorization'' \<mapsto> [''Bearer key1, key2'']]\<rparr>"
  have t: "Split (TrimSpace (drop 7 ''Bearer key1, key2'')) = [''key1'', '' key2'']"
    by code_simp
  have t': "Split (TrimSpace (drop 7 ''Bearer   key1, key2  '')) = [''key1'', '' key2'']"
    by code_simp
  have b: "isBearer ''Bearer key1, key2''"
    by code_simp
  have l: "ToLower (take 7 ''Bearer key1, key2'') = ''bearer ''"
    by code_simp
  have first: "ServeHTTP (provisioned fmempty) ?r
      = Inr (\<lparr>Indexes = Some (fmupd ''/v1'' 1 fmempty), Changed = True,
               IndexPath = ''indexes.json'', logger = [LogDebug ''Set Authorization'' ''Bearer key1'']\<rparr>,
             \<lparr>Path = ''/v1'', Header = [''Authorization'' \<mapsto> [''Bearer key1'']]\<rparr>)"
    by (simp add: t ServeHTTP_def Let_def b provisioned_def Header_Get_upd Header_Get_empty
      rotate_Some map_read_def selection_def Header_Set_def signed_modulo_int_def
      del: take_Suc_Cons drop_Suc_Cons take_Cons_numeral drop_Cons_numeral)
  have a: "Indexes (provisioned (fmupd ''/v1'' 1 fmempty)) = Some (fmupd ''/v1'' 1 fmempty)"
    by (simp add: provisioned_def)
  have p: "0 \<le> sint (map_read (Indexes (provisioned (fmupd ''/v1'' 1 fmempty))) (Path ?r))"
    by (simp add: provisioned_def map_read_def)
  have h: "Header_Get (Header ?r) ''Authorization'' = ''Bearer key1, key2''"
    by (simp add: Header_Get_upd)
  have n: "7 \<le> length ''Bearer key1, key2''" by simp
  have sel: "selection (map_read (Indexes (provisioned (fmupd ''/v1'' 1 fmempty))) (Path ?r))
      [''key1'', '' key2''] = 1"
    by (simp add: provisioned_def map_read_def selection_def)
  from bearer_list_not_trimmed_per_element [OF a p h n l]
  obtain a' r' where "ServeHTTP (provisioned (fmupd ''/v1'' 1 fmempty)) ?r = Inr (a', r')"
    "Header_Get (Header r') ''Authorization'' = ''Bearer '' @
       Split (TrimSpace (drop 7 ''Bearer key1, key2'')) !
         selection (map_read (Indexes (provisioned (fmupd ''/v1'' 1 fmempty))) (Path ?r))
           (Split (TrimSpace (drop 7 ''Bearer key1, key2'')))"
    by blast
  then have "\<exists>a' r'. ServeHTTP (provisioned (fmupd ''/v1'' 1 fmempty)) ?r = Inr (a', r')
        \<and> Header_Get (Header r') ''Authorization'' = ''Bearer  key2''"
    by (simp only: t sel) simp
  with t t' first show ?thesis by simp
qed

section \<open>The index file\<close>

text \<open>
  C2. \<^verbatim>\<open>saveIndexes\<close> on a handler whose changed flag is not set changes neither the
  handler nor the file system, whatever a write would do. When the flag is set, the
  encoding of the table is written: if the write succeeds the flag is cleared and the
  file holds the encoding; if it fails the flag is set again, the table is kept and the
  failure logged, and a following \<^verbatim>\<open>saveIndexes\<close> whose write succeeds clears the flag and
  leaves the encoding of the table in the file.
\<close>

theorem flush_if_dirty:
  "(\<not> Changed a \<longrightarrow> saveIndexes w (a, fs) = (a, fs))
   \<and> (Changed a \<longrightarrow>
        (\<exists>data. Marshal (Indexes a) = Inr data
           \<and> saveIndexes WriteOk (a, fs) = (a\<lparr>Changed := False\<rparr>, fs(IndexPath a := Content data))
           \<and> (\<forall>left. \<exists>a' fs'. saveIndexes (WriteFails left) (a, fs) = (a', fs')
                  \<and> Changed a' \<and> Indexes a' = Indexes a \<and> IndexPath a' = IndexPath a
                  \<and> logger a' = logger a @ [LogError ''Error writing indexes to file'']
                  \<and> fs' = fs(IndexPath a := left)
                  \<and> saveIndexes WriteOk (a', fs')
                      = (a'\<lparr>Changed := False\<rparr>, fs'(IndexPath a := Content data)))))"
  by (auto simp: saveIndexes_def Marshal_def WriteFile_def Let_def)


theorem flush_if_dirty_witness:
  "saveIndexes WriteOk (provisioned fmempty, \<lambda>_. Absent) = (provisioned fmempty, \<lambda>_. Absent)
   \<and> (\<exists>data. Marshal (Some (fmupd ''/v1'' 1 fmempty)) = Inr data
        \<and> saveIndexes WriteOk ((provisioned (fmupd ''/v1'' 1 fmempty))\<lparr>Changed := True\<rparr>, \<lambda>_. Absent)
            = (provisioned (fmupd ''/v1'' 1 fmempty), (\<lambda>_. Absent)(''indexes.json'' := Content data))
        \<and> (\<forall>left. \<exists>a' fs'. saveIndexes (WriteFails left)
                ((provisioned (fmupd ''/v1'' 1 fmempty))\<lparr>Changed := True\<rparr>, \<lambda>_. Absent) = (a', fs')
              \<and> Changed a' \<and> Indexes a' = Some (fmupd ''/v1'' 1 fmempty)
              \<and> IndexPath a' = ''indexes.json''
              \<and> logger a' = [LogError ''Error writing indexes to file'']
              \<and> fs' = (\<lambda>_. Absent)(''indexes.json'' := left)
              \<and> saveIndexes WriteOk (a', fs')
                  = (a'\<lparr>Changed := False\<rparr>, fs'(''indexes.json'' := Content data))))"
  using flush_if_dirty [of "provisioned fmempty" WriteOk "\<lambda>_. Absent"]
    flush_if_dirty [of "(provisioned (fmupd ''/v1'' 1 fmempty))\<lparr>Changed := True\<rparr>" WriteOk "\<lambda>_. Absent"]
  by (simp add: provisioned_def)


lemma ex_corrupt: "Unmarshal ''{oops'' None = Inl JsonError"
  by code_simp

text \<open>
  C3. \<^verbatim>\<open>Provision\<close> returns no error. When there is no file at the path, \<^verbatim>\<open>loadIndexes\<close>
  leaves an empty table and logs nothing; when the file is there and \<^verbatim>\<open>Unmarshal\<close> fails
  on its bytes, it logs the failure and leaves an empty table.
\<close>

theorem load_never_fails:
  "fst (Provision mkdir_ok fs a) = None
   \<and> (fs (IndexPath a) = Absent \<longrightarrow> loadIndexes fs a = a\<lparr>Indexes := Some fmempty\<rparr>)
   \<and> (fs (IndexPath a) = Content data \<and> Unmarshal data (Indexes a) = Inl err \<longrightarrow>
        loadIndexes fs a =
          a\<lparr>logger := logger a @ [LogError ''Error parsing indexes file''],
             Indexes := Some fmempty\<rparr>)"
  by (simp add: Provision_def Let_def loadIndexes_def ReadFile_def)


theorem load_never_fails_witness:
  "fst (Provision True (\<lambda>_. Absent) unprovisioned) = None
   \<and> loadIndexes (\<lambda>_. Absent) unprovisioned = unprovisioned\<lparr>Indexes := Some fmempty\<rparr>
   \<and> loadIndexes ((\<lambda>_. Absent)(''indexes.json'' := Content ''{oops'')) unprovisioned =
        unprovisioned\<lparr>logger := [LogError ''Error parsing indexes file''], Indexes := Some fmempty\<rparr>"
proof -
  have p: "IndexPath unprovisioned = ''indexes.json''" "Indexes unprovisioned = None"
    "logger unprovisioned = []"
    by (simp_all add: unprovisioned_def)
  from load_never_fails [of True "\<lambda>_. Absent" unprovisioned]
  have 1: "fst (Provision True (\<lambda>_. Absent) unprovisioned) = None"
    and 2: "loadIndexes (\<lambda>_. Absent) unprovisioned = unprovisioned\<lparr>Indexes := Some fmempty\<rparr>"
    by simp_all
  from load_never_fails [of _ "(\<lambda>_. Absent)(''indexes.json'' := Content ''{oops'')" unprovisioned
      "''{oops''" JsonError]
  have "loadIndexes ((\<lambda>_. Absent)(''indexes.json'' := Content ''{oops'')) unprovisioned =
        unprovisioned\<lparr>logger := [LogError ''Error parsing indexes file''], Indexes := Some fmempty\<rparr>"
    by (simp add: p ex_corrupt)
  with 1 2 show ?thesis by simp
qed


section \<open>Writing the table and reading it back\<close>

lemma hex_val_digit: "n < 16 \<Longrightarrow> hex_val (hex_digit n) = Some n"
proof -
  assume "n < 16"
  then have "n \<in> {0, 1, 2, 3, 4, 5, 6, 7, 8, 9, 10, 11, 12, 13, 14, 15}" by simp arith
  then show ?thesis
    by (elim insertE emptyE) (simp_all add: hex_val_def hex_digit_def byte_def)
qed

lemma getu4_escape:
  assumes "b < 256"
  shows "getu4 (CHR ''0'' # CHR ''0'' # hex_digit (b div 16) # hex_digit (b mod 16) # X) = Some b"
proof -
  have h: "hex_val (hex_digit (b div 16)) = Some (b div 16)"
    using assms by (intro hex_val_digit) simp
  have l: "hex_val (hex_digit (b mod 16)) = Some (b mod 16)"
    by (intro hex_val_digit) simp
  have z: "hex_val CHR ''0'' = Some 0"
    by (simp add: hex_val_def byte_def)
  show ?thesis
    by (simp add: getu4_def h l z)
qed

lemma unquote_escape_ascii:
  assumes "byte c < 0x80"
  shows "unquote (escape_ascii c @ X) = emit [c] (unquote X)"
proof -
  have b: "byte c < 256" using assms by simp
  have enc: "EncodeRune (byte c) = [c]"
    using assms by (simp add: EncodeRune_def byte_def)
  consider (q) "c = CHR 0x22 \<or> c = CHR 0x5C"
    | (two) "c \<in> {CHR 0x08, CHR 0x0C, CHR 0x0A, CHR 0x0D, CHR 0x09}"
    | (u) "c \<noteq> CHR 0x22" "c \<noteq> CHR 0x5C" "c \<notin> {CHR 0x08, CHR 0x0C, CHR 0x0A, CHR 0x0D, CHR 0x09}"
        "byte c < 0x20 \<or> c = CHR ''<'' \<or> c = CHR ''>'' \<or> c = CHR ''&''"
    | (plain) "c \<noteq> CHR 0x22" "c \<noteq> CHR 0x5C" "c \<notin> {CHR 0x08, CHR 0x0C, CHR 0x0A, CHR 0x0D, CHR 0x09}"
        "\<not> (byte c < 0x20 \<or> c = CHR ''<'' \<or> c = CHR ''>'' \<or> c = CHR ''&'')"
    by blast
  then show ?thesis
  proof cases
    case q
    then show ?thesis by (auto simp: escape_ascii_def)
  next
    case two
    then show ?thesis by (auto simp: escape_ascii_def)
  next
    case u
    then have e: "escape_ascii c =
        [CHR 0x5C, CHR ''u'', CHR ''0'', CHR ''0'', hex_digit (byte c div 16), hex_digit (byte c mod 16)]"
      by (simp add: escape_ascii_def)
    show ?thesis
      using assms by (simp add: e getu4_escape [OF b] enc)
  next
    case plain
    then have e: "escape_ascii c = [c]"
      by (simp add: escape_ascii_def)
    from plain assms show ?thesis
      by (simp add: e)
  qed
qed


lemma utf8_width_le: "utf8_width s \<le> length s"
  by (cases s) (auto simp: Let_def split: list.splits)

lemma utf8_width_take:
  "utf8_width s \<noteq> 0 \<Longrightarrow> utf8_width (take (utf8_width s) s @ Y) = utf8_width s"
  by (cases s) (auto simp: Let_def split: list.splits if_splits)

lemma utf8_width_ascii: "byte c < 0x80 \<Longrightarrow> utf8_width (c # cs) = 1"
  by simp

lemma utf8_width_multi: "\<not> byte c < 0x80 \<Longrightarrow> utf8_width (c # cs) \<noteq> 0 \<Longrightarrow> 2 \<le> utf8_width (c # cs)"
  by (auto simp: Let_def split: list.splits if_splits)

lemma getu4_fffd: "getu4 (CHR ''f'' # CHR ''f'' # CHR ''f'' # CHR ''d'' # X) = Some 0xFFFD"
  by (simp add: getu4_def hex_val_def byte_def)

lemma getu4_2028: "getu4 (CHR ''2'' # CHR ''0'' # CHR ''2'' # CHR ''8'' # X) = Some 0x2028"
  by (simp add: getu4_def hex_val_def byte_def)

lemma getu4_2029: "getu4 (CHR ''2'' # CHR ''0'' # CHR ''2'' # CHR ''9'' # X) = Some 0x2029"
  by (simp add: getu4_def hex_val_def byte_def)

lemma bit_one_nat: "bit (Suc 0) 0"
  by (simp add: bit_0)

lemma EncodeRune_values:
  "EncodeRune 0xFFFD = [CHR 0xEF, CHR 0xBF, CHR 0xBD]"
  "EncodeRune 0x2028 = [CHR 0xE2, CHR 0x80, CHR 0xA8]"
  "EncodeRune 0x2029 = [CHR 0xE2, CHR 0x80, CHR 0xA9]"
  by (simp_all add: EncodeRune_def char_of_def bit_one_nat)

lemma unquote_raw:
  assumes "\<not> byte c < 0x80" and "utf8_width (c # cs) \<noteq> 0"
  shows "unquote (take (utf8_width (c # cs)) (c # cs) @ Z)
           = emit (take (utf8_width (c # cs)) (c # cs)) (unquote Z)"
proof -
  let ?w = "utf8_width (c # cs)"
  have w2: "2 \<le> ?w" using assms by (rule utf8_width_multi)
  have wl: "?w \<le> length (c # cs)" by (rule utf8_width_le)
  obtain n where n: "?w = Suc n" using w2 by (cases ?w) simp_all
  have tk: "take ?w (c # cs) = c # take n cs" by (simp only: n take_Suc_Cons)
  have ln: "length (take n cs) = n" using wl n by (simp del: utf8_width.simps)
  have wd: "utf8_width (c # take n cs @ Z) = Suc n"
    using utf8_width_take [OF assms(2), of Z] by (simp only: n take_Suc_Cons append_Cons)
  have c1: "c \<noteq> CHR 0x22" "c \<noteq> CHR 0x5C" "\<not> byte c < 0x20"
    using assms(1) by (auto simp: byte_def)
  have "unquote (c # take n cs @ Z)
      = emit (take (Suc n) (c # take n cs @ Z)) (unquote (drop n (take n cs @ Z)))"
    using c1 assms(1) wd by (simp del: utf8_width.simps)
  also have "take (Suc n) (c # take n cs @ Z) = c # take n cs" using ln by simp
  also have "drop n (take n cs @ Z) = Z" using ln by simp
  finally show ?thesis by (simp only: tk append_Cons)
qed

lemma unquote_escape: "unquote (escape k @ CHR 0x22 # rest) = Some (coerce k, rest)"
proof (induction k rule: escape.induct)
  case 1
  show ?case by simp
next
  case (2 c cs)
  show ?case
  proof (cases "byte c < 0x80")
    case True
    with 2 have "unquote (escape cs @ CHR 0x22 # rest) = Some (coerce cs, rest)" by simp
    with True show ?thesis
      by (simp add: unquote_escape_ascii emit_def del: utf8_width.simps unquote.simps)
        (simp add: utf8_width_ascii)
  next
    case a: False
    show ?thesis
    proof (cases "utf8_width (c # cs) = 0")
      case True
      with a 2 have "unquote (escape cs @ CHR 0x22 # rest) = Some (coerce cs, rest)" by simp
      with a True show ?thesis
        by (simp add: getu4_fffd EncodeRune_values emit_def del: utf8_width.simps)
    next
      case w: False
      show ?thesis
      proof (cases "take 3 (c # cs) = [CHR 0xE2, CHR 0x80, CHR 0xA8]")
        case True
        then obtain cs' where cs: "c = CHR 0xE2" "cs = CHR 0x80 # CHR 0xA8 # cs'"
          by (cases cs; cases "tl cs") auto
        have wd: "utf8_width (c # cs) = 3" by (simp add: cs byte_def cont_def)
        from 2(3) [OF a w True] have "unquote (escape cs' @ CHR 0x22 # rest) = Some (coerce cs', rest)"
          by (simp add: cs)
        then show ?thesis
          using wd by (simp add: cs getu4_2028 EncodeRune_values emit_def byte_def del: utf8_width.simps)
      next
        case ls: False
        show ?thesis
        proof (cases "take 3 (c # cs) = [CHR 0xE2, CHR 0x80, CHR 0xA9]")
          case True
          then obtain cs' where cs: "c = CHR 0xE2" "cs = CHR 0x80 # CHR 0xA9 # cs'"
            by (cases cs; cases "tl cs") auto
          have wd: "utf8_width (c # cs) = 3" by (simp add: cs byte_def cont_def)
          from 2(4) [OF a w ls True] have "unquote (escape cs' @ CHR 0x22 # rest) = Some (coerce cs', rest)"
            by (simp add: cs)
          then show ?thesis
            using wd by (simp add: cs getu4_2029 EncodeRune_values emit_def byte_def del: utf8_width.simps)
        next
          case ps: False
          from 2(5) [OF a w ls ps]
          have IH: "unquote (escape (drop (utf8_width (c # cs) - 1) cs) @ CHR 0x22 # rest)
              = Some (coerce (drop (utf8_width (c # cs) - 1) cs), rest)" .
          have e: "escape (c # cs) = take (utf8_width (c # cs)) (c # cs)
              @ escape (drop (utf8_width (c # cs) - 1) cs)"
            by (simp only: escape.simps a w ls ps if_False)
          have k: "coerce (c # cs) = take (utf8_width (c # cs)) (c # cs)
              @ coerce (drop (utf8_width (c # cs) - 1) cs)"
            by (simp only: coerce.simps w if_False)
          show ?thesis
            by (simp only: e k append_assoc unquote_raw [OF a w] IH) (simp add: emit_def)
        qed
      qed
    qed
  qed
qed

lemma coerce_valid: "valid_utf8 k \<Longrightarrow> coerce k = k"
proof (induction k rule: coerce.induct)
  case 1
  show ?case by simp
next
  case (2 c cs)
  from "2.prems" have w: "utf8_width (c # cs) \<noteq> 0"
    and v: "valid_utf8 (drop (utf8_width (c # cs) - 1) cs)"
    by (simp_all del: utf8_width.simps)
  from "2.IH"(2) [OF w v] have "coerce (drop (utf8_width (c # cs) - 1) cs) = drop (utf8_width (c # cs) - 1) cs" .
  moreover have "1 \<le> utf8_width (c # cs)" using w by simp
  then have "take (utf8_width (c # cs)) (c # cs) @ drop (utf8_width (c # cs) - 1) cs = c # cs"
    by (cases "utf8_width (c # cs)") (simp_all del: utf8_width.simps)
  ultimately show ?case using w by (simp del: utf8_width.simps)
qed

lemma digit_char:
  assumes "d < 10"
  shows "is_digit (char_of (48 + d))" and "byte (char_of (48 + d)) - 48 = d"
    and "char_of (48 + d) \<noteq> CHR ''-''" and "char_of (48 + d) \<noteq> CHR ''n''"
    and "d \<noteq> 0 \<Longrightarrow> char_of (48 + d) \<noteq> CHR ''0''"
proof -
  have b: "of_char (char_of (48 + d)) = 48 + d"
    using assms by simp
  show "is_digit (char_of (48 + d))"
    using assms by (simp add: is_digit_def less_eq_char_def b)
  show "byte (char_of (48 + d)) - 48 = d"
    unfolding byte_def b by simp
  show "char_of (48 + d) \<noteq> CHR ''-''"
  proof
    assume "char_of (48 + d) = CHR ''-''"
    then have "of_char (char_of (48 + d)) = (of_char CHR ''-'' :: nat)" by simp
    then show False by (simp only: b) simp
  qed
  show "char_of (48 + d) \<noteq> CHR ''n''"
  proof
    assume "char_of (48 + d) = CHR ''n''"
    then have "of_char (char_of (48 + d)) = (of_char CHR ''n'' :: nat)" by simp
    then show False using assms by (simp only: b) simp
  qed
  show "char_of (48 + d) \<noteq> CHR ''0''" if "d \<noteq> 0"
  proof
    assume "char_of (48 + d) = CHR ''0''"
    then have "of_char (char_of (48 + d)) = (of_char CHR ''0'' :: nat)" by simp
    then show False using that by (simp only: b) simp
  qed
qed

lemma digits_not_Nil: "digits n \<noteq> []"
  by (subst digits.simps) simp

lemma digits_all: "c \<in> set (digits n) \<Longrightarrow> is_digit c"
proof (induction n arbitrary: c rule: digits.induct)
  case (1 n)
  show ?case
  proof (cases "n < 10")
    case True
    with "1.prems" digit_char(1) [OF True] show ?thesis
      by (subst (asm) digits.simps) simp
  next
    case False
    have "n mod 10 < 10" by simp
    from digit_char(1) [OF this] False "1.prems" "1.IH" [OF False] show ?thesis
      by (subst (asm) digits.simps) auto
  qed
qed

lemma number_value_snoc: "number_value (ds @ [c]) = 10 * number_value ds + int (byte c - 48)"
  by (simp add: number_value_def)

lemma number_value_digits: "number_value (digits n) = int n"
proof (induction n rule: digits.induct)
  case (1 n)
  show ?case
  proof (cases "n < 10")
    case True
    from digit_char(2) [OF True] True show ?thesis
      by (subst digits.simps) (simp add: number_value_def)
  next
    case False
    have "n mod 10 < 10" by simp
    from digit_char(2) [OF this] "1.IH" [OF False] False show ?thesis
      by (subst digits.simps) (simp add: number_value_snoc, presburger)
  qed
qed

lemma hd_digits: "is_digit (hd (digits n))"
  using digits_all [of "hd (digits n)" n] digits_not_Nil [of n] by simp

lemma digits_no_leading_zero: "n \<noteq> 0 \<Longrightarrow> hd (digits n) \<noteq> CHR ''0''"
proof (induction n rule: digits.induct)
  case (1 n)
  show ?case
  proof (cases "n < 10")
    case True
    from digit_char(5) [OF True "1.prems"] True show ?thesis
      by (subst digits.simps) simp
  next
    case False
    then have "n div 10 \<noteq> 0" by simp
    from "1.IH" [OF False this] False digits_not_Nil [of "n div 10"] show ?thesis
      by (subst digits.simps) simp
  qed
qed

lemma digits_zero: "digits 0 = [CHR ''0'']"
  by (subst digits.simps) (simp add: char_of_def bit_one_nat)

lemma hd_digits_not: "hd (digits n) \<noteq> CHR ''-''" "hd (digits n) \<noteq> CHR ''n''"
  using hd_digits [of n] by (auto simp: is_digit_def less_eq_char_def)

lemma takeWhile_digits:
  assumes "ends_number rest"
  shows "takeWhile is_digit (digits n @ rest) = digits n"
    and "dropWhile is_digit (digits n @ rest) = rest"
proof -
  have r: "takeWhile is_digit rest = []" "dropWhile is_digit rest = rest"
    using assms by (cases rest; simp add: ends_number_def)+
  show "takeWhile is_digit (digits n @ rest) = digits n"
    using digits_all [of _ n] by (simp add: takeWhile_append2 r)
  show "dropWhile is_digit (digits n @ rest) = rest"
    using digits_all [of _ n] by (simp add: dropWhile_append2 r)
qed

lemma digits_grammar: "\<not> (hd (digits n) = CHR ''0'' \<and> length (digits n) \<noteq> 1)"
proof (cases "n = 0")
  case True
  then show ?thesis by (simp add: digits_zero)
next
  case False
  then show ?thesis by (simp add: digits_no_leading_zero)
qed

lemma scan_int_FormatInt:
  assumes "ends_number rest"
  shows "scan_int (FormatInt (sint v) @ rest) = Some (v, rest)"
proof -
  have range: "- (2 ^ 63) \<le> sint v" "sint v < 2 ^ 63"
    using sint_ge [of v] sint_lt [of v] by simp_all
  show ?thesis
  proof (cases "sint v < 0")
    case True
    let ?n = "nat (- sint v)"
    have s: "FormatInt (sint v) @ rest = CHR ''-'' # digits ?n @ rest"
      using True by (simp add: FormatInt_def)
    have val: "- number_value (digits ?n) = sint v"
      using True by (simp add: number_value_digits)
    show ?thesis
      unfolding s scan_int_def Let_def
      using range digits_grammar [of ?n] digits_not_Nil [of ?n]
      by (simp add: takeWhile_digits [OF assms] val del: of_nat_le_iff)
  next
    case False
    let ?n = "nat (sint v)"
    have s: "FormatInt (sint v) @ rest = digits ?n @ rest"
      using False by (simp add: FormatInt_def)
    have hd: "hd (digits ?n @ rest) \<noteq> CHR ''-''"
      using hd_digits_not(1) [of ?n] digits_not_Nil [of ?n] by simp
    have val: "number_value (digits ?n) = sint v"
      using False by (simp add: number_value_digits)
    show ?thesis
      unfolding s scan_int_def Let_def
      using range digits_grammar [of ?n] digits_not_Nil [of ?n] hd
      by (simp add: takeWhile_digits [OF assms] val)
  qed
qed

lemma hd_FormatInt: "FormatInt i \<noteq> []" "hd (FormatInt i) \<noteq> CHR ''n''" "\<not> is_space (hd (FormatInt i))"
proof -
  show "FormatInt i \<noteq> []" by (simp add: FormatInt_def digits_not_Nil)
  show "hd (FormatInt i) \<noteq> CHR ''n''"
    using hd_digits_not(2) by (simp add: FormatInt_def)
  show "\<not> is_space (hd (FormatInt i))"
    using hd_digits [of "nat i"]
    by (auto simp: FormatInt_def is_space_def is_digit_def less_eq_char_def)
qed

lemma scan_value_FormatInt:
  assumes "ends_number rest"
  shows "scan_value (FormatInt (sint v) @ rest) = Some (v, rest)"
proof -
  obtain c cs where f: "FormatInt (sint v) = c # cs" and c: "c \<noteq> CHR ''n''"
    using hd_FormatInt(1,2) [of "sint v"] by (cases "FormatInt (sint v)") auto
  then have "\<not> prefix ''null'' (FormatInt (sint v) @ rest)" by simp
  with scan_int_FormatInt [OF assms] show ?thesis
    by (simp add: scan_value_def)
qed

lemma skip_space_id: "s = [] \<or> \<not> is_space (hd s) \<Longrightarrow> skip_space s = s"
  by (cases s) (auto simp: skip_space_def)

lemma scan_member_text:
  assumes "c = CHR '','' \<or> c = CHR ''}''"
  shows "scan_member (appendString k @ '':'' @ FormatInt (sint v) @ c # r) = Some (coerce k, v, c # r)"
proof -
  have e: "ends_number (c # r)"
    using assms by (auto simp: ends_number_def is_digit_def less_eq_char_def)
  have sp: "skip_space (c # r) = c # r"
    using assms by (intro skip_space_id) (auto simp: is_space_def)
  have sf: "skip_space (FormatInt (sint v) @ c # r) = FormatInt (sint v) @ c # r"
    using hd_FormatInt(1,3) [of "sint v"] by (intro skip_space_id) simp
  have sq: "skip_space (CHR 0x22 # x) = CHR 0x22 # x" for x
    by (simp add: skip_space_def is_space_def)
  have sc: "skip_space (CHR '':'' # x) = CHR '':'' # x" for x
    by (simp add: skip_space_def is_space_def)
  have u: "unquote (escape k @ CHR 0x22 # CHR '':'' # FormatInt (sint v) @ c # r)
      = Some (coerce k, CHR '':'' # FormatInt (sint v) @ c # r)"
    by (rule unquote_escape)
  show ?thesis
    by (simp add: scan_member_def appendString_def sq u sc sf scan_value_FormatInt [OF e] sp
        del: unquote.simps)
qed

lemma scan_members_join:
  "kvs \<noteq> [] \<Longrightarrow>
     scan_members m (join_members kvs @ ''}'') = Some (fold (\<lambda>(k, v). fmupd (coerce k) v) kvs m)"
proof (induction kvs arbitrary: m rule: join_members.induct)
  case 1
  then show ?case by simp
next
  case (2 k v)
  have "scan_member (join_members [(k, v)] @ ''}'') = Some (coerce k, v, ''}'')"
    using scan_member_text [of "CHR ''}''" k v "[]"] by simp
  then show ?case
    by (subst scan_members.simps) (simp add: skip_space_def)
next
  case (3 k v kv kvs)
  have "scan_member (join_members ((k, v) # kv # kvs) @ ''}'')
      = Some (coerce k, v, CHR '','' # join_members (kv # kvs) @ ''}'')"
    using scan_member_text [of "CHR '',''" k v "join_members (kv # kvs) @ ''}''"] by simp
  moreover have "scan_members (fmupd (coerce k) v m) (join_members (kv # kvs) @ ''}'')
      = Some (fold (\<lambda>(k, v). fmupd (coerce k) v) (kv # kvs) (fmupd (coerce k) v m))"
    by (rule "3.IH") simp
  ultimately show ?case
    by (subst scan_members.simps) simp
qed

lemma join_members_hd: "kvs \<noteq> [] \<Longrightarrow> \<exists>x. join_members kvs = CHR 0x22 # x"
  by (induction kvs rule: join_members.induct) (simp_all add: appendString_def)

lemma Unmarshal_object:
  "Unmarshal (''{'' @ join_members kvs @ ''}'') old =
     Inr (Some (fold (\<lambda>(k, v). fmupd (coerce k) v) kvs (case old of None \<Rightarrow> fmempty | Some m \<Rightarrow> m)))"
proof (cases "kvs = []")
  case True
  then show ?thesis
    by (simp add: Unmarshal_def skip_space_def is_space_def)
next
  case False
  from join_members_hd [OF False] obtain x where x: "join_members kvs = CHR 0x22 # x" ..
  have "skip_space (join_members kvs @ ''}'') = CHR 0x22 # x @ ''}''"
    by (simp add: x skip_space_def is_space_def)
  moreover have "skip_space (''{'' @ join_members kvs @ ''}'') = ''{'' @ join_members kvs @ ''}''"
    by (simp add: skip_space_def is_space_def)
  ultimately show ?thesis
    using scan_members_join [OF False]
    by (simp add: Unmarshal_def Let_def)
qed

lemma Unmarshal_null: "Unmarshal ''null'' old = Inr None"
  by (simp add: Unmarshal_def skip_space_def is_space_def)

lemma fold_coerce_valid:
  "\<forall>k\<in>fst ` set kvs. valid_utf8 k \<Longrightarrow>
     fold (\<lambda>(k, v). fmupd (coerce k) v) kvs b = fold (\<lambda>(k, v). fmupd k v) kvs b"
  by (induction kvs arbitrary: b) (auto simp: coerce_valid)

lemma fold_entries_lookup:
  "fmlookup (fold (\<lambda>(k, v). fmupd k v) (map (\<lambda>k. (k, the (fmlookup m k))) ks) b) x
     = (if x \<in> set ks then Some (the (fmlookup m x)) else fmlookup b x)"
  by (induction ks arbitrary: b) auto

lemma fold_sorted_list: "fold (\<lambda>(k, v). fmupd k v) (sorted_list_of_fmap m) b = b ++\<^sub>f m"
proof (rule fmap_ext)
  fix x
  show "fmlookup (fold (\<lambda>(k, v). fmupd k v) (sorted_list_of_fmap m) b) x = fmlookup (b ++\<^sub>f m) x"
    unfolding sorted_list_of_fmap_def fold_entries_lookup
    by (auto simp: fmdom.rep_eq dom_def)
qed

lemma keys_sorted_list: "fst ` set (sorted_list_of_fmap m) = fmdom' m"
  by (auto simp: sorted_list_of_fmap_def fmdom'_alt_def image_image)

lemma ex_valid_key: "valid_utf8 ''/v1''"
  by (simp add: byte_def)


text \<open>
  C4, as the code has it. For a table whose keys are well-formed UTF-8, what
  \<^verbatim>\<open>Marshal\<close> writes is read back by \<^verbatim>\<open>Unmarshal\<close> as the same table; \<^verbatim>\<open>saveIndexes\<close>
  writes it to the file, and \<^verbatim>\<open>loadIndexes\<close> of a handler with the same path gets the
  table (added to the table that handler had, if it had one).
\<close>

theorem snapshot_round_trip:
  assumes "Indexes a = Some m" and "Changed a"
    and "\<forall>k\<in>fmdom' m. valid_utf8 k"
    and "IndexPath b = IndexPath a"
  shows "\<exists>data. Marshal (Indexes a) = Inr data
           \<and> Unmarshal data None = Inr (Some m)
           \<and> saveIndexes WriteOk (a, fs) = (a\<lparr>Changed := False\<rparr>, fs(IndexPath a := Content data))
           \<and> Indexes (loadIndexes (fs(IndexPath a := Content data)) b)
               = Some ((case Indexes b of None \<Rightarrow> fmempty | Some old \<Rightarrow> old) ++\<^sub>f m)"
proof -
  let ?data = "CHR ''{'' # join_members (sorted_list_of_fmap m) @ ''}''"
  have d: "Marshal (Indexes a) = Inr ?data"
    by (simp add: Marshal_def assms(1))
  have v: "\<forall>k\<in>fst ` set (sorted_list_of_fmap m). valid_utf8 k"
    using assms(3) by (simp only: keys_sorted_list)
  have u: "Unmarshal ?data old = Inr (Some ((case old of None \<Rightarrow> fmempty | Some m \<Rightarrow> m) ++\<^sub>f m))" for old
    using Unmarshal_object [of "sorted_list_of_fmap m" old]
    by (simp add: fold_coerce_valid [OF v] fold_sorted_list)
  have s: "saveIndexes WriteOk (a, fs) = (a\<lparr>Changed := False\<rparr>, fs(IndexPath a := Content ?data))"
    using assms(2) d by (simp add: saveIndexes_def WriteFile_def)
  have l: "Indexes (loadIndexes (fs(IndexPath a := Content ?data)) b)
      = Some ((case Indexes b of None \<Rightarrow> fmempty | Some old \<Rightarrow> old) ++\<^sub>f m)"
    by (simp add: loadIndexes_def ReadFile_def assms(4) u)
  from u [of None] have "Unmarshal ?data None = Inr (Some m)" by simp
  with d s l show ?thesis by blast
qed


theorem snapshot_round_trip_witness:
  "\<exists>data. Marshal (Some (fmupd ''/v1'' 2 fmempty)) = Inr data
     \<and> Unmarshal data None = Inr (Some (fmupd ''/v1'' 2 fmempty))
     \<and> Indexes (loadIndexes ((\<lambda>_. Absent)(''indexes.json'' := Content data)) unprovisioned)
         = Some (fmupd ''/v1'' 2 fmempty)"
proof -
  have a: "Indexes ((provisioned (fmupd ''/v1'' 2 fmempty))\<lparr>Changed := True\<rparr>) = Some (fmupd ''/v1'' 2 fmempty)"
    by (simp add: provisioned_def)
  have c: "Changed ((provisioned (fmupd ''/v1'' 2 fmempty))\<lparr>Changed := True\<rparr>)" by simp
  have v: "\<forall>k\<in>fmdom' (fmupd ''/v1'' (2::int64) fmempty). valid_utf8 k"
    using ex_valid_key by simp
  have p: "IndexPath unprovisioned = IndexPath ((provisioned (fmupd ''/v1'' 2 fmempty))\<lparr>Changed := True\<rparr>)"
    by (simp add: unprovisioned_def provisioned_def)
  from snapshot_round_trip [OF a c v p, of "\<lambda>_. Absent"] show ?thesis
    by (auto simp: provisioned_def unprovisioned_def)
qed


lemma ex_bad_join:
  "join_members [([CHR ''/'', CHR 0xFF], 1)]
     = [CHR 0x22, CHR ''/'', CHR 0x5C] @ ''ufffd'' @ [CHR 0x22] @ '':1''"
  by code_simp

lemma ex_bad_marshal:
  "Marshal (Some (fmupd [CHR ''/'', CHR 0xFF] 1 fmempty))
     = Inr (''{'' @ [CHR 0x22, CHR ''/'', CHR 0x5C] @ ''ufffd'' @ [CHR 0x22] @ '':1}'')"
  by code_simp

lemma ex_bad_coerce: "coerce [CHR ''/'', CHR 0xFF] = [CHR ''/'', CHR 0xEF, CHR 0xBF, CHR 0xBD]"
  by (simp add: byte_def)

text \<open>
  A key that is not well-formed UTF-8 does not come back: the table with the key
  \<^verbatim>\<open>/\<close> followed by the byte \<open>0xFF\<close> (the path of the request target \<^verbatim>\<open>/%FF\<close>) is written
  with the escape of U+FFFD in the place of that byte and read back with the three
  bytes of U+FFFD there, so the table read back has no position for the key and one
  for another key.
\<close>

theorem snapshot_round_trip_counterexample:
  "Marshal (Some (fmupd [CHR ''/'', CHR 0xFF] 1 fmempty))
     = Inr (''{'' @ [CHR 0x22, CHR ''/'', CHR 0x5C] @ ''ufffd'' @ [CHR 0x22] @ '':1}'')
   \<and> Unmarshal (''{'' @ [CHR 0x22, CHR ''/'', CHR 0x5C] @ ''ufffd'' @ [CHR 0x22] @ '':1}'') None
     = Inr (Some (fmupd [CHR ''/'', CHR 0xEF, CHR 0xBF, CHR 0xBD] 1 fmempty))
   \<and> fmlookup (fmupd [CHR ''/'', CHR 0xEF, CHR 0xBF, CHR 0xBD] (1::int64) fmempty) [CHR ''/'', CHR 0xFF] = None
   \<and> fmlookup (fmupd [CHR ''/'', CHR 0xFF] (1::int64) fmempty) [CHR ''/'', CHR 0xFF] = Some 1"
proof -
  from Unmarshal_object [of "[([CHR ''/'', CHR 0xFF], 1)]" None]
  have "Unmarshal (''{'' @ ([CHR 0x22, CHR ''/'', CHR 0x5C] @ ''ufffd'' @ [CHR 0x22] @ '':1'') @ ''}'') None
     = Inr (Some (fold (\<lambda>(k, v). fmupd (coerce k) v) [([CHR ''/'', CHR 0xFF], 1)] fmempty))"
    by (simp only: ex_bad_join option.case)
  then have "Unmarshal (''{'' @ [CHR 0x22, CHR ''/'', CHR 0x5C] @ ''ufffd'' @ [CHR 0x22] @ '':1}'') None
     = Inr (Some (fmupd [CHR ''/'', CHR 0xEF, CHR 0xBF, CHR 0xBD] 1 fmempty))"
    by (simp add: ex_bad_coerce del: coerce.simps)
  with ex_bad_marshal show ?thesis by simp
qed

end
